theory Spec2Isabelle
  imports Complex_Main "HOL-Library.Log_Nat" "HOL-Library.Word"
begin

section \<open>The Kafka load-test producer (producer.go)\<close>

text \<open>
  The development embeds \<^verbatim>\<open>producer.go\<close>: the pacing functions
  \<^verbatim>\<open>computeTickerInterval\<close> and \<^verbatim>\<open>computeClientAmount\<close>, the
  construction of the producer pool (\<^verbatim>\<open>KafkaProducer\<close>, \<^verbatim>\<open>createClients\<close>),
  the assignment of clients to workers (\<^verbatim>\<open>StartProducers\<close>), the stop broadcast
  (\<^verbatim>\<open>StopProducers\<close>) and the loop every worker runs (\<^verbatim>\<open>startSchedule\<close>).

  Conventions. Go's \<^verbatim>\<open>int\<close> is modelled by \<^typ>\<open>int\<close> (the program does no
  arithmetic on it that could wrap; where the 64-bit range matters it is a hypothesis),
  \<^verbatim>\<open>uint64\<close> by \<^typ>\<open>64 word\<close>, \<^verbatim>\<open>float64\<close> by the type \<open>f64\<close> below, a
  byte slice by a \<^typ>\<open>string\<close> with the nil slice as the empty one, a Go error by its
  message, a runtime panic by a value of \<open>panic\<close>. What the program reads from the
  outside (the result of each \<^verbatim>\<open>sarama.NewClient\<close> call, the object the pool hands
  out at a tick, the result of each \<^verbatim>\<open>SendMessages\<close> call, whether a stop
  notification is ready) is an argument of the model.
\<close>

subsection \<open>float64: IEEE 754 binary64, round to nearest, ties to even\<close>

text \<open>
  A finite value \<open>F64 s m e\<close> stands for \<open>(-1)^s * m * 2^e\<close> with \<open>0 \<le> m\<close>; the
  zeros keep their sign (\<open>m = 0\<close>).
\<close>

datatype f64 = F64 bool int int | F64Inf bool | F64NaN

text \<open>The integer nearest to \<open>N / D\<close>, the even one of two equally near (\<open>0 \<le> N\<close>, \<open>0 < D\<close>).\<close>

definition round_half_even :: "int \<Rightarrow> int \<Rightarrow> int" where
  "round_half_even N D =
     (let q = N div D; r = N mod D
      in if 2 * r < D then q
         else if D < 2 * r then q + 1
         else if even q then q else q + 1)"

text \<open>\<open>\<lfloor>log\<^sub>2 (n / d)\<rfloor>\<close> for \<open>0 < n\<close> and \<open>0 < d\<close>, from the bit lengths.\<close>

definition ilog2_ratio :: "int \<Rightarrow> int \<Rightarrow> int" where
  "ilog2_ratio n d =
     (let k = bitlen n - bitlen d
      in if (if 0 \<le> k then d * 2 ^ nat k \<le> n else d \<le> n * 2 ^ nat (- k))
         then k else k - 1)"

text \<open>
  \<open>rne s n d e\<close> rounds the exact value \<open>(n / d) * 2^e\<close> (\<open>0 \<le> n\<close>, \<open>0 < d\<close>) to
  binary64 and gives it the sign \<open>s\<close>: 53 significant bits, the smallest exponent of
  the last place \<open>-1074\<close> (subnormal numbers), infinity from \<open>2^1024\<close> on.
\<close>

definition rne :: "bool \<Rightarrow> int \<Rightarrow> int \<Rightarrow> int \<Rightarrow> f64" where
  "rne s n d e =
     (if n = 0 then F64 s 0 0
      else
        let E = ilog2_ratio n d + e;
            q = max E (- 1022) - 52;
            M = (if q \<le> e then round_half_even (n * 2 ^ nat (e - q)) d
                 else round_half_even n (d * 2 ^ nat (q - e)))
        in if 1024 < q + bitlen M then F64Inf s else F64 s M q)"

text \<open>\<^verbatim>\<open>float64(n)\<close> for an integer \<open>n\<close>.\<close>

definition f64_of_int :: "int \<Rightarrow> f64" where
  "f64_of_int n = rne (n < 0) \<bar>n\<bar> 1 0"

text \<open>\<^verbatim>\<open>x / y\<close>: dividing by zero does not panic on floats, it gives an infinity or NaN.\<close>

fun f64_div :: "f64 \<Rightarrow> f64 \<Rightarrow> f64" where
  "f64_div F64NaN y = F64NaN"
| "f64_div x F64NaN = F64NaN"
| "f64_div (F64Inf s) (F64Inf t) = F64NaN"
| "f64_div (F64Inf s) (F64 t m' e') = F64Inf (s \<noteq> t)"
| "f64_div (F64 s m e) (F64Inf t) = F64 (s \<noteq> t) 0 0"
| "f64_div (F64 s m e) (F64 t m' e') =
     (if m' = 0 then (if m = 0 then F64NaN else F64Inf (s \<noteq> t))
      else rne (s \<noteq> t) m m' (e - e'))"

text \<open>\<^verbatim>\<open>x * y\<close>.\<close>

fun f64_mul :: "f64 \<Rightarrow> f64 \<Rightarrow> f64" where
  "f64_mul F64NaN y = F64NaN"
| "f64_mul x F64NaN = F64NaN"
| "f64_mul (F64Inf s) (F64Inf t) = F64Inf (s \<noteq> t)"
| "f64_mul (F64Inf s) (F64 t m' e') = (if m' = 0 then F64NaN else F64Inf (s \<noteq> t))"
| "f64_mul (F64 s m e) (F64Inf t) = (if m = 0 then F64NaN else F64Inf (s \<noteq> t))"
| "f64_mul (F64 s m e) (F64 t m' e') = rne (s \<noteq> t) (m * m') 1 (e + e')"

text \<open>\<^verbatim>\<open>math.Ceil\<close>: zeros, infinities and NaN are returned as they are.\<close>

fun f64_ceil :: "f64 \<Rightarrow> f64" where
  "f64_ceil (F64 s m e) =
     (if 0 \<le> e then F64 s m e
      else if s then F64 True (m div 2 ^ nat (- e)) 0
      else F64 False ((m + 2 ^ nat (- e) - 1) div 2 ^ nat (- e)) 0)"
| "f64_ceil x = x"

text \<open>The integer part of a finite value (the fraction is discarded).\<close>

fun f64_trunc :: "f64 \<Rightarrow> int option" where
  "f64_trunc (F64 s m e) =
     (let t = (if 0 \<le> e then m * 2 ^ nat e else m div 2 ^ nat (- e))
      in Some (if s then - t else t))"
| "f64_trunc x = None"

text \<open>
  \<^verbatim>\<open>int64(x)\<close> and, on a 64-bit platform, \<^verbatim>\<open>int(x)\<close>. When the integer part does not
  fit, or \<open>x\<close> is an infinity or NaN, the conversion still succeeds and the language
  leaves the value to the implementation: \<open>oor\<close> is that choice.
\<close>

definition int64_of_f64 :: "(f64 \<Rightarrow> int) \<Rightarrow> f64 \<Rightarrow> int" where
  "int64_of_f64 oor x =
     (case f64_trunc x of
        Some v \<Rightarrow> if - (2 ^ 63) \<le> v \<and> v < 2 ^ 63 then v else oor x
      | None \<Rightarrow> oor x)"

subsection \<open>Pacing\<close>

text \<open>\<^verbatim>\<open>const ProducerPerWorker float64 = 5.0\<close>\<close>

definition ProducerPerWorker :: f64 where
  "ProducerPerWorker = rne False 5 1 0"

text \<open>
  \<^verbatim>\<open>return int64((1.0 / (float64(msgRate) / float64(workerCount))) * 1e9)\<close>
\<close>

definition computeTickerInterval :: "(f64 \<Rightarrow> int) \<Rightarrow> 64 word \<Rightarrow> int \<Rightarrow> int" where
  "computeTickerInterval oor msgRate workerCount =
     int64_of_f64 oor
       (f64_mul
          (f64_div (rne False 1 1 0)
             (f64_div (f64_of_int (uint msgRate)) (f64_of_int workerCount)))
          (rne False 1000000000 1 0))"

text \<open>\<^verbatim>\<open>return int(math.Ceil(workers / writers))\<close>\<close>

definition computeClientAmount :: "(f64 \<Rightarrow> int) \<Rightarrow> f64 \<Rightarrow> f64 \<Rightarrow> int" where
  "computeClientAmount oor workers writers =
     int64_of_f64 oor (f64_ceil (f64_div workers writers))"

subsection \<open>Data\<close>

type_synonym bytes = string
type_synonym error = string

datatype panic =
    MakeSliceOutOfRange
  | MakeChanSizeOutOfRange
  | NegativeWaitGroupCounter
  | IndexOutOfRange
  | NonPositiveTickerInterval

text \<open>
  \<^verbatim>\<open>inputConfig\<close> is declared outside producer.go; the record has the fields
  producer.go reads, at the types it uses them.
\<close>

record Workers =
  producers :: int
  creators :: int

record inputConfig =
  msgRate :: "64 word"
  Workers :: Workers
  brokers :: "string list"
  batchSize :: int
  topic :: string

record producerMetrics =
  sentBatches :: "64 word"
  errors :: "64 word"

text \<open>A buffered channel of booleans: its capacity and the values waiting in it.\<close>

record chan =
  capacity :: nat
  buffered :: "bool list"

text \<open>
  The calls on the sarama client API, in the order the program makes them. The program
  text has no call of \<^verbatim>\<open>Client.Close\<close>.
\<close>

datatype 'c api_call = NewClient "error + 'c" | ClientClose 'c | Println string

record 'c kafkaProducer =
  input :: inputConfig
  clients :: "'c option list"
  wg :: int
  stop :: chan
  metrics :: producerMetrics
  interval :: int

definition initMetrics :: producerMetrics where
  "initMetrics = \<lparr>sentBatches = 0, errors = 0\<rparr>"

subsection \<open>Construction of the pool\<close>

text \<open>
  \<^verbatim>\<open>createClients\<close>. \<open>newClient i\<close> is the result of the \<open>i\<close>-th call of
  \<^verbatim>\<open>sarama.NewClient(brokers, config)\<close>, counted from 0. The loop state is the index,
  the slice and the calls made so far. \<^verbatim>\<open>make\<close> panics on a negative length; the
  limit of the runtime on the size of one allocation is not modelled.
\<close>

function createClients_loop ::
  "(nat \<Rightarrow> error + 'c) \<Rightarrow> int \<Rightarrow> int \<Rightarrow> 'c option list \<Rightarrow> 'c api_call list
     \<Rightarrow> ('c option list \<times> error option) \<times> 'c api_call list" where
  "createClients_loop newClient amount i cs calls =
     (if i < amount then
        (case newClient (nat i) of
           Inl err \<Rightarrow> ((cs, Some err), calls @ [NewClient (Inl err)])
         | Inr client \<Rightarrow>
             createClients_loop newClient amount (i + 1) (cs[nat i := Some client])
               (calls @ [NewClient (Inr client)]))
      else ((cs, None), calls))"
  by pat_completeness auto
termination
  by (relation "measure (\<lambda>(newClient, amount, i, cs, calls). nat (amount - i))") auto

definition createClients ::
  "(nat \<Rightarrow> error + 'c) \<Rightarrow> int
     \<Rightarrow> panic + (('c option list \<times> error option) \<times> 'c api_call list)" where
  "createClients newClient amount =
     (if amount < 0 then Inl MakeSliceOutOfRange
      else Inr (createClients_loop newClient amount 0 (replicate (nat amount) None) []))"

text \<open>\<^verbatim>\<open>make(chan bool, n)\<close>\<close>

definition make_chan :: "int \<Rightarrow> panic + chan" where
  "make_chan n =
     (if n < 0 then Inl MakeChanSizeOutOfRange
      else Inr \<lparr>capacity = nat n, buffered = []\<rparr>)"

text \<open>
  \<^verbatim>\<open>KafkaProducer\<close>. The result is the producer and the calls made; the function has
  no error result.
\<close>

definition KafkaProducer ::
  "(f64 \<Rightarrow> int) \<Rightarrow> (nat \<Rightarrow> error + 'c) \<Rightarrow> inputConfig
     \<Rightarrow> panic + ('c kafkaProducer \<times> 'c api_call list)" where
  "KafkaProducer oor newClient config =
     (let iv = computeTickerInterval oor (msgRate config) (producers (Workers config));
          clientCount = computeClientAmount oor (f64_of_int (producers (Workers config)))
                          ProducerPerWorker
      in case createClients newClient clientCount of
           Inl p \<Rightarrow> Inl p
         | Inr ((cs, err), calls) \<Rightarrow>
             (let calls = calls @ (case err of
                                     None \<Rightarrow> []
                                   | Some e \<Rightarrow> [Println ''New Client Error'', Println e]);
                  calls = calls @ [Println ''Connected to kafka client'']
              in case make_chan (creators (Workers config)) of
                   Inl p \<Rightarrow> Inl p
                 | Inr ch \<Rightarrow>
                     Inr (\<lparr>input = config, clients = cs, wg = 0, stop = ch,
                            metrics = initMetrics, interval = iv\<rparr>, calls)))"

subsection \<open>Starting and stopping the workers\<close>

text \<open>Go's integer division truncates towards zero.\<close>

definition go_quot :: "int \<Rightarrow> int \<Rightarrow> int" where
  "go_quot a b = sgn a * sgn b * (\<bar>a\<bar> div \<bar>b\<bar>)"

text \<open>
  The loop of \<^verbatim>\<open>StartProducers\<close>: \<open>started\<close> collects, in the order of the worker
  index, the client each \<^verbatim>\<open>go k.producer(client)\<close> is started with.
  \<^verbatim>\<open>int(ProducerPerWorker)\<close> is the constant 5.
\<close>

function StartProducers_loop ::
  "'c option list \<Rightarrow> int \<Rightarrow> int \<Rightarrow> 'c option list \<Rightarrow> panic + 'c option list" where
  "StartProducers_loop cs count i started =
     (if i < count then
        (let idx = go_quot i 5
         in if 0 \<le> idx \<and> idx < int (length cs)
            then StartProducers_loop cs count (i + 1) (started @ [cs ! nat idx])
            else Inl IndexOutOfRange)
      else Inr started)"
  by pat_completeness auto
termination
  by (relation "measure (\<lambda>(cs, count, i, started). nat (count - i))") auto

definition StartProducers ::
  "'c kafkaProducer \<Rightarrow> panic + ('c kafkaProducer \<times> 'c option list)" where
  "StartProducers k =
     (let count = producers (Workers (input k))
      in if wg k + count < 0 then Inl NegativeWaitGroupCounter
         else case StartProducers_loop (clients k) count 0 [] of
                Inl p \<Rightarrow> Inl p
              | Inr started \<Rightarrow> Inr (k\<lparr>wg := wg k + count\<rparr>, started))"

text \<open>
  The broadcast of \<^verbatim>\<open>StopProducers\<close> (\<^verbatim>\<open>k.stop <- true\<close>, once per producer) while
  no worker receives: a send on a full channel blocks. The result is the channel and
  \<open>None\<close> when all sends went through, or the number \<open>i\<close> of the send that blocks.
\<close>

function StopProducers_broadcast :: "int \<Rightarrow> int \<Rightarrow> chan \<Rightarrow> chan \<times> int option" where
  "StopProducers_broadcast count i c =
     (if i \<le> count then
        (if length (buffered c) < capacity c
         then StopProducers_broadcast count (i + 1) (c\<lparr>buffered := buffered c @ [True]\<rparr>)
         else (c, Some i))
      else (c, None))"
  by pat_completeness auto
termination
  by (relation "measure (\<lambda>(count, i, c). nat (count + 1 - i))") auto

subsection \<open>The worker loop\<close>

text \<open>
  What a worker reads from outside in one iteration of \<^verbatim>\<open>for range ticker.C\<close>:
  the object \<^verbatim>\<open>k.messages.Get()\<close> hands out (\<open>None\<close> for nil), the result
  \<^verbatim>\<open>SendMessages\<close> gives if it is called in this iteration (\<open>None\<close> for a nil error),
  and whether a value can be received from \<^verbatim>\<open>k.stop\<close> when the select runs.
\<close>

record 'o tick_in =
  polled :: "'o option"
  sendResult :: "error option"
  stopReady :: bool

text \<open>
  The state of a worker: the batch, the calls of \<^verbatim>\<open>SendMessages\<close> made so far (the
  batch passed and the result), the lines printed, and whether the worker has returned.
\<close>

record 'm worker =
  msgBatch :: "'m list"
  sends :: "('m list \<times> error option) list"
  console :: "string list"
  stopped :: bool

definition new_worker :: "'m worker" where
  "new_worker = \<lparr>msgBatch = [], sends = [], console = [], stopped = False\<rparr>"

text \<open>
  \<^verbatim>\<open>pollMessage\<close>: the gob encoding of the polled object. \<open>enc v\<close> is what the encoder
  writes for the object \<open>v\<close> and whether it reports an error; for a nil value the encoder
  reports an error before it writes, so the buffer stays empty and
  \<^verbatim>\<open>buf.Bytes()\<close> is the nil slice.
\<close>

definition pollMessage :: "('o \<Rightarrow> bytes \<times> bool) \<Rightarrow> 'o option \<Rightarrow> bytes \<times> string list" where
  "pollMessage enc p =
     (let (buf, err) = (case p of None \<Rightarrow> ([], True) | Some v \<Rightarrow> enc v)
      in (buf, if err then [''Encoding Error''] else []))"

text \<open>Lines 110 to 117: the flush of a full batch, \<open>r\<close> the result of \<^verbatim>\<open>SendMessages\<close>.\<close>

definition flush ::
  "error option \<Rightarrow> producerMetrics \<times> 'm worker \<Rightarrow> producerMetrics \<times> 'm worker" where
  "flush r mw =
     (let (mt, w) = mw;
          mt = mt\<lparr>sentBatches := sentBatches mt + 1\<rparr>;
          w = w\<lparr>sends := sends w @ [(msgBatch w, r)]\<rparr>;
          w = w\<lparr>msgBatch := []\<rparr>
      in case r of
           None \<Rightarrow> (mt, w)
         | Some e \<Rightarrow> (mt\<lparr>errors := errors mt + 1\<rparr>,
                      w\<lparr>console := console w @ [''Error while sending'', e]\<rparr>))"

text \<open>Lines 119 to 126: the select on \<^verbatim>\<open>k.stop\<close>.\<close>

definition select_stop ::
  "bool \<Rightarrow> producerMetrics \<times> 'm worker \<Rightarrow> producerMetrics \<times> 'm worker" where
  "select_stop ready mw =
     (let (mt, w) = mw
      in if ready then (mt, w\<lparr>console := console w @ [''Stopped producer''], stopped := True\<rparr>)
         else (mt, w))"

text \<open>
  One iteration of the loop. \<open>build\<close> is \<^verbatim>\<open>BuildProducerMessage\<close>, declared outside
  producer.go. The \<^verbatim>\<open>continue\<close> of line 108 skips the select.
\<close>

definition tick ::
  "(string \<Rightarrow> bytes \<Rightarrow> 'm) \<Rightarrow> ('o \<Rightarrow> bytes \<times> bool) \<Rightarrow> inputConfig \<Rightarrow> 'o tick_in
     \<Rightarrow> producerMetrics \<times> 'm worker \<Rightarrow> producerMetrics \<times> 'm worker" where
  "tick build enc cfg inp mw =
     (let (mt, w) = mw;
          (m, printed) = pollMessage enc (polled inp);
          w = w\<lparr>console := console w @ printed\<rparr>
      in if m = [] then
           select_stop (stopReady inp)
             (mt, w\<lparr>console := console w @ [''Could not retrieve message from pool'']\<rparr>)
         else
           (let w = w\<lparr>msgBatch := msgBatch w @ [build (topic cfg) m]\<rparr>
            in if int (length (msgBatch w)) \<noteq> batchSize cfg then (mt, w)
               else select_stop (stopReady inp) (flush (sendResult inp) (mt, w))))"

text \<open>The loop over the ticks delivered so far; it ends when the worker has returned.\<close>

fun run_ticks ::
  "(string \<Rightarrow> bytes \<Rightarrow> 'm) \<Rightarrow> ('o \<Rightarrow> bytes \<times> bool) \<Rightarrow> inputConfig \<Rightarrow> 'o tick_in list
     \<Rightarrow> producerMetrics \<times> 'm worker \<Rightarrow> producerMetrics \<times> 'm worker" where
  "run_ticks build enc cfg [] mw = mw"
| "run_ticks build enc cfg (inp # inps) mw =
     (if stopped (snd mw) then mw
      else run_ticks build enc cfg inps (tick build enc cfg inp mw))"

text \<open>
  \<^verbatim>\<open>startSchedule\<close>: \<^verbatim>\<open>time.NewTicker\<close> panics on an interval that is not positive,
  \<^verbatim>\<open>make\<close> on a negative capacity; then the loop runs on a new batch.
\<close>

definition startSchedule ::
  "(string \<Rightarrow> bytes \<Rightarrow> 'm) \<Rightarrow> ('o \<Rightarrow> bytes \<times> bool) \<Rightarrow> 'c kafkaProducer \<Rightarrow> 'o tick_in list
     \<Rightarrow> producerMetrics \<Rightarrow> panic + (producerMetrics \<times> 'm worker)" where
  "startSchedule build enc k inps mt =
     (if interval k \<le> 0 then Inl NonPositiveTickerInterval
      else if batchSize (input k) < 0 then Inl MakeSliceOutOfRange
      else Inr (run_ticks build enc (input k) inps (mt, new_worker)))"

subsection \<open>The worker loop, statement by statement\<close>

text \<open>
  The workers of one pool run concurrently on the shared counters of
  \<^verbatim>\<open>k.metrics\<close>, and \<^verbatim>\<open>SendMessages\<close> takes time: other workers run while a
  call is in progress. To speak of every instant, the loop body is cut at each access to
  a counter and at the call and the return of \<^verbatim>\<open>SendMessages\<close>. A worker stands at
  one of these places of \<^verbatim>\<open>startSchedule\<close>:

    \<^item> \<open>L101\<close>: at \<^verbatim>\<open>for range ticker.C\<close>, waiting for a tick;
    \<^item> \<open>L110\<close>: the batch is full, \<^verbatim>\<open>atomic.AddUint64(&k.metrics.sentBatches, 1)\<close> is next;
    \<^item> \<open>L111\<close>: line 110 is done, the call \<^verbatim>\<open>p.SendMessages(msgBatch)\<close> is next;
    \<^item> \<open>InSendMessages\<close>: the call has begun and has not returned;
    \<^item> \<open>L114 e\<close>: the call has returned the error \<open>e\<close> and the batch is cleared (lines 112
      and 113), \<^verbatim>\<open>atomic.AddUint64(&k.metrics.errors, 1)\<close> is next;
    \<^item> \<open>L119\<close>: the select on \<^verbatim>\<open>k.stop\<close> is next;
    \<^item> \<open>Returned\<close>: the worker has returned (line 123).
\<close>

datatype position = L101 | L110 | L111 | InSendMessages | L114 error | L119 | Returned

record 'm running =
  own :: "'m worker"
  pc :: position

definition new_running :: "'m running" where
  "new_running = \<lparr>own = new_worker, pc = L101\<rparr>"

text \<open>
  The worker executes the code from its place up to the next place. From \<open>L101\<close> these
  are lines 101 to 109 (the poll, the print or the append, the test of the length), which
  touch nothing the workers share but the pool of messages. The call of
  \<^verbatim>\<open>SendMessages\<close> is recorded in \<open>sends\<close> when it returns; a call in progress is the
  place \<open>InSendMessages\<close>, the batch passed is still \<open>msgBatch\<close>.
\<close>

definition advance ::
  "(string \<Rightarrow> bytes \<Rightarrow> 'm) \<Rightarrow> ('o \<Rightarrow> bytes \<times> bool) \<Rightarrow> inputConfig \<Rightarrow> 'o tick_in
     \<Rightarrow> producerMetrics \<times> 'm running \<Rightarrow> producerMetrics \<times> 'm running" where
  "advance build enc cfg inp mp =
     (let (mt, p) = mp; w = own p
      in case pc p of
           L101 \<Rightarrow>
             (let (m, printed) = pollMessage enc (polled inp);
                  w = w\<lparr>console := console w @ printed\<rparr>
              in if m = [] then
                   (mt, \<lparr>own = w\<lparr>console := console w @ [''Could not retrieve message from pool'']\<rparr>,
                         pc = L119\<rparr>)
                 else
                   (let w = w\<lparr>msgBatch := msgBatch w @ [build (topic cfg) m]\<rparr>
                    in if int (length (msgBatch w)) \<noteq> batchSize cfg then (mt, \<lparr>own = w, pc = L101\<rparr>)
                       else (mt, \<lparr>own = w, pc = L110\<rparr>)))
         | L110 \<Rightarrow> (mt\<lparr>sentBatches := sentBatches mt + 1\<rparr>, p\<lparr>pc := L111\<rparr>)
         | L111 \<Rightarrow> (mt, p\<lparr>pc := InSendMessages\<rparr>)
         | InSendMessages \<Rightarrow>
             (let r = sendResult inp;
                  w = w\<lparr>sends := sends w @ [(msgBatch w, r)]\<rparr>;
                  w = w\<lparr>msgBatch := []\<rparr>
              in case r of
                   None \<Rightarrow> (mt, \<lparr>own = w, pc = L119\<rparr>)
                 | Some e \<Rightarrow> (mt, \<lparr>own = w, pc = L114 e\<rparr>))
         | L114 e \<Rightarrow>
             (mt\<lparr>errors := errors mt + 1\<rparr>,
              \<lparr>own = w\<lparr>console := console w @ [''Error while sending'', e]\<rparr>, pc = L119\<rparr>)
         | L119 \<Rightarrow>
             (let (mt, w) = select_stop (stopReady inp) (mt, w)
              in (mt, \<lparr>own = w, pc = (if stopped w then Returned else L101)\<rparr>))
         | Returned \<Rightarrow> (mt, p))"

text \<open>
  One whole iteration of a worker that nothing interrupts: from \<open>L101\<close> on until it
  stands at \<open>L101\<close> again or has returned (at most five more places).
\<close>

fun finish ::
  "nat \<Rightarrow> (string \<Rightarrow> bytes \<Rightarrow> 'm) \<Rightarrow> ('o \<Rightarrow> bytes \<times> bool) \<Rightarrow> inputConfig \<Rightarrow> 'o tick_in
     \<Rightarrow> producerMetrics \<times> 'm running \<Rightarrow> producerMetrics \<times> 'm running" where
  "finish 0 build enc cfg inp mp = mp"
| "finish (Suc n) build enc cfg inp mp =
     (if pc (snd mp) = L101 \<or> pc (snd mp) = Returned then mp
      else finish n build enc cfg inp (advance build enc cfg inp mp))"

definition iteration ::
  "(string \<Rightarrow> bytes \<Rightarrow> 'm) \<Rightarrow> ('o \<Rightarrow> bytes \<times> bool) \<Rightarrow> inputConfig \<Rightarrow> 'o tick_in
     \<Rightarrow> producerMetrics \<times> 'm running \<Rightarrow> producerMetrics \<times> 'm running" where
  "iteration build enc cfg inp mp = finish 5 build enc cfg inp (advance build enc cfg inp mp)"

text \<open>
  Several workers on the shared counters. An event is the index of the worker that
  advances to its next place, with what it reads from outside on the way; a list of
  events is one interleaving of the workers, in which any worker may stand anywhere while
  another one moves. Each worker has its own batch.
\<close>

definition pool_step ::
  "(string \<Rightarrow> bytes \<Rightarrow> 'm) \<Rightarrow> ('o \<Rightarrow> bytes \<times> bool) \<Rightarrow> inputConfig \<Rightarrow> nat \<times> 'o tick_in
     \<Rightarrow> producerMetrics \<times> 'm running list \<Rightarrow> producerMetrics \<times> 'm running list" where
  "pool_step build enc cfg ev mps =
     (let (i, inp) = ev; (mt, ps) = mps
      in if i < length ps
         then (let (mt', p') = advance build enc cfg inp (mt, ps ! i) in (mt', ps[i := p']))
         else (mt, ps))"

fun pool_run ::
  "(string \<Rightarrow> bytes \<Rightarrow> 'm) \<Rightarrow> ('o \<Rightarrow> bytes \<times> bool) \<Rightarrow> inputConfig \<Rightarrow> (nat \<times> 'o tick_in) list
     \<Rightarrow> producerMetrics \<times> 'm running list \<Rightarrow> producerMetrics \<times> 'm running list" where
  "pool_run build enc cfg [] mps = mps"
| "pool_run build enc cfg (ev # evs) mps =
     pool_run build enc cfg evs (pool_step build enc cfg ev mps)"

text \<open>
  What is counted at an instant. Of the calls of \<^verbatim>\<open>SendMessages\<close> a worker has made:
  those that returned nil, those that returned an error, and the one in progress. A flush
  attempt (lines 110 to 117) has begun once its first statement, line 110, is done: these
  are the calls made and the call the worker at \<open>L111\<close> is about to make. A failed call
  is counted in \<^verbatim>\<open>errors\<close> once line 114 is done.
\<close>

definition successes :: "'m running \<Rightarrow> nat" where
  "successes p = length (filter (\<lambda>(b, r). r = None) (sends (own p)))"

definition failures :: "'m running \<Rightarrow> nat" where
  "failures p = length (filter (\<lambda>(b, r). r \<noteq> None) (sends (own p)))"

definition in_progress :: "'m running \<Rightarrow> nat" where
  "in_progress p = (if pc p = InSendMessages then 1 else 0)"

definition calls_made :: "'m running \<Rightarrow> nat" where
  "calls_made p = successes p + failures p + in_progress p"

definition about_to_call :: "'m running \<Rightarrow> nat" where
  "about_to_call p = (if pc p = L111 then 1 else 0)"

definition attempts :: "'m running \<Rightarrow> nat" where
  "attempts p = calls_made p + about_to_call p"

definition about_to_count_error :: "'m running \<Rightarrow> nat" where
  "about_to_count_error p = (case pc p of L114 e \<Rightarrow> 1 | _ \<Rightarrow> 0)"

definition counted_failures :: "'m running \<Rightarrow> nat" where
  "counted_failures p = failures p - about_to_count_error p"

definition total :: "('m running \<Rightarrow> nat) \<Rightarrow> 'm running list \<Rightarrow> nat" where
  "total f ps = sum_list (map f ps)"

subsection \<open>Vocabulary of the statements\<close>

text \<open>
  An iteration reaches the flush (line 110) when the poll gave a payload and the batch,
  with the new message appended, has \<^verbatim>\<open>batchSize\<close> messages.
\<close>

definition flushes :: "('o \<Rightarrow> bytes \<times> bool) \<Rightarrow> inputConfig \<Rightarrow> 'o tick_in \<Rightarrow> 'm worker \<Rightarrow> bool" where
  "flushes enc cfg inp w \<longleftrightarrow>
     fst (pollMessage enc (polled inp)) \<noteq> [] \<and> int (length (msgBatch w)) + 1 = batchSize cfg"

text \<open>
  Every message the worker has appended so far, in order: the batches it passed to
  \<^verbatim>\<open>SendMessages\<close>, then the batch it is filling.
\<close>

definition history :: "'m worker \<Rightarrow> 'm list" where
  "history w = concat (map fst (sends w)) @ msgBatch w"

text \<open>The messages built from the payloads a list of iterations polls, one for each payload.\<close>

definition appended ::
  "(string \<Rightarrow> bytes \<Rightarrow> 'm) \<Rightarrow> ('o \<Rightarrow> bytes \<times> bool) \<Rightarrow> inputConfig \<Rightarrow> 'o tick_in list \<Rightarrow> 'm list" where
  "appended build enc cfg inps =
     map (build (topic cfg))
       (filter (\<lambda>m. m \<noteq> []) (map (\<lambda>inp. fst (pollMessage enc (polled inp))) inps))"

text \<open>Every batch passed to \<^verbatim>\<open>SendMessages\<close> had \<^verbatim>\<open>batchSize\<close> messages.\<close>

definition full_batches :: "inputConfig \<Rightarrow> 'm worker \<Rightarrow> bool" where
  "full_batches cfg w \<longleftrightarrow> list_all (\<lambda>(b, r). int (length b) = batchSize cfg) (sends w)"

text \<open>
  A pool of \<open>n\<close> workers on new counters, each about to wait for its first tick.
\<close>

definition fresh_pool :: "nat \<Rightarrow> producerMetrics \<times> 'm running list" where
  "fresh_pool n = (initMetrics, replicate n new_running)"

text \<open>
  The counters agree with what the workers have done: \<^verbatim>\<open>sentBatches\<close> is the number
  of flush attempts begun, \<^verbatim>\<open>errors\<close> the number of failed calls counted (both as
  \<^verbatim>\<open>uint64\<close>), and a worker at line 114 has a failed call behind it.
\<close>

definition pool_inv :: "producerMetrics \<times> 'm running list \<Rightarrow> bool" where
  "pool_inv mps \<longleftrightarrow>
     sentBatches (fst mps) = of_nat (total attempts (snd mps)) \<and>
     errors (fst mps) = of_nat (total counted_failures (snd mps)) \<and>
     list_all (\<lambda>p. about_to_count_error p \<le> failures p) (snd mps)"

subsection \<open>Concrete inputs\<close>

definition example_config :: inputConfig where
  "example_config =
     \<lparr>msgRate = 1000, Workers = \<lparr>producers = 12, creators = 2\<rparr>,
      brokers = [''broker-0:9092''], batchSize = 3, topic = ''load''\<rparr>"

text \<open>A message is the pair of its topic and payload; the encoder writes the object as it is.\<close>

definition envelope :: "string \<Rightarrow> bytes \<Rightarrow> string \<times> bytes" where
  "envelope t m = (t, m)"

definition plain_enc :: "string \<Rightarrow> bytes \<times> bool" where
  "plain_enc v = (v, False)"

definition yields :: "string \<Rightarrow> error option \<Rightarrow> string tick_in" where
  "yields p r = \<lparr>polled = Some p, sendResult = r, stopReady = False\<rparr>"

text \<open>Six polls give A to F; the first send fails, the second succeeds.\<close>

definition six_ticks :: "string tick_in list" where
  "six_ticks =
     [yields ''A'' None, yields ''B'' None, yields ''C'' (Some ''broker down''),
      yields ''D'' None, yields ''E'' None, yields ''F'' None]"

definition idle_tick :: "string tick_in" where
  "idle_tick = \<lparr>polled = None, sendResult = None, stopReady = False\<rparr>"

text \<open>
  Three workers with batch size 1, interleaved: each polls a payload; the first has its
  call returned with an error and stands before line 114, the second is inside
  \<^verbatim>\<open>SendMessages\<close>, the third stands between line 110 and line 111.
\<close>

definition returns :: "error option \<Rightarrow> string tick_in" where
  "returns r = \<lparr>polled = None, sendResult = r, stopReady = False\<rparr>"

definition three_in_a_flush :: "(nat \<times> string tick_in) list" where
  "three_in_a_flush =
     [(0, yields ''A'' None), (1, yields ''B'' None), (0, idle_tick), (2, yields ''C'' None),
      (1, idle_tick), (0, idle_tick), (2, idle_tick), (1, idle_tick),
      (0, returns (Some ''broker down''))]"

text \<open>
  The rate, in messages per second, of \<open>workerCount\<close> workers that each emit one
  message every \<open>tickInterval\<close> nanoseconds: \<open>workerCount * (1 / tickIntervalSeconds)\<close>.
\<close>

definition aggregate_rate :: "int \<Rightarrow> int \<Rightarrow> real" where
  "aggregate_rate workerCount tickInterval =
     real_of_int workerCount * (1 / (real_of_int tickInterval / 10 ^ 9))"

text \<open>
  On amd64 the conversion instruction gives the smallest \<^verbatim>\<open>int64\<close> for a value that
  does not fit.
\<close>

definition amd64_oor :: "f64 \<Rightarrow> int" where
  "amd64_oor x = - (2 ^ 63)"

text \<open>Brokers that accept every connection, and brokers that refuse the second one.\<close>

definition all_open :: "nat \<Rightarrow> error + nat" where
  "all_open i = Inr i"

definition second_fails :: "nat \<Rightarrow> error + nat" where
  "second_fails i = (if i = 1 then Inl ''out of brokers'' else Inr i)"

text \<open>The recursive equations of the loops are unfolded by hand.\<close>

declare createClients_loop.simps [simp del]
declare StartProducers_loop.simps [simp del]
declare StopProducers_broadcast.simps [simp del]


section \<open>Properties of the worker loop\<close>

lemmas example_defs = example_config_def envelope_def plain_enc_def yields_def six_ticks_def
  idle_tick_def initMetrics_def new_worker_def

lemmas loop_defs = tick_def flush_def select_stop_def pollMessage_def Let_def

lemma flush_fst:
  "fst (flush r (mt, w)) =
     (case r of None \<Rightarrow> mt\<lparr>sentBatches := sentBatches mt + 1\<rparr>
      | Some e \<Rightarrow> mt\<lparr>sentBatches := sentBatches mt + 1, errors := errors mt + 1\<rparr>)"
  by (simp add: flush_def Let_def split: option.split)

lemma flush_msgBatch: "msgBatch (snd (flush r (mt, w))) = []"
  by (simp add: flush_def Let_def split: option.split)

lemma flush_sends: "sends (snd (flush r (mt, w))) = sends w @ [(msgBatch w, r)]"
  by (simp add: flush_def Let_def split: option.split)

lemma flush_stopped: "stopped (snd (flush r (mt, w))) = stopped w"
  by (simp add: flush_def Let_def split: option.split)

lemma select_stop_fst: "fst (select_stop b mw) = fst mw"
  by (simp add: select_stop_def split: prod.split)

lemma select_stop_msgBatch: "msgBatch (snd (select_stop b mw)) = msgBatch (snd mw)"
  by (simp add: select_stop_def split: prod.split)

lemma select_stop_sends: "sends (snd (select_stop b mw)) = sends (snd mw)"
  by (simp add: select_stop_def split: prod.split)

lemma tick_fst:
  "fst (tick build enc cfg inp (mt, w)) =
     (if flushes enc cfg inp w then fst (flush (sendResult inp) (mt, w)) else mt)"
  by (simp add: tick_def flushes_def Let_def select_stop_fst flush_fst split: prod.split option.split)

lemma tick_msgBatch:
  "msgBatch (snd (tick build enc cfg inp (mt, w))) =
     (if fst (pollMessage enc (polled inp)) = [] then msgBatch w
      else if flushes enc cfg inp w then []
      else msgBatch w @ [build (topic cfg) (fst (pollMessage enc (polled inp)))])"
  by (simp add: tick_def flushes_def Let_def select_stop_msgBatch flush_msgBatch split: prod.split)

lemma tick_sends:
  "sends (snd (tick build enc cfg inp (mt, w))) =
     (if flushes enc cfg inp w
      then sends w @ [(msgBatch w @ [build (topic cfg) (fst (pollMessage enc (polled inp)))],
                       sendResult inp)]
      else sends w)"
  by (simp add: tick_def flushes_def Let_def select_stop_sends flush_sends split: prod.split)

lemma tick_history:
  "history (snd (tick build enc cfg inp (mt, w))) = history w @ appended build enc cfg [inp]"
  by (auto simp add: history_def appended_def tick_msgBatch tick_sends flushes_def)

lemma run_ticks_history:
  "\<exists>n\<le>length inps.
     history (snd (run_ticks build enc cfg inps (mt, w))) =
       history w @ appended build enc cfg (take n inps)"
proof (induction inps arbitrary: mt w)
  case Nil
  then show ?case by (simp add: appended_def)
next
  case (Cons inp inps)
  show ?case
  proof (cases "stopped w")
    case True
    then have "history (snd (run_ticks build enc cfg (inp # inps) (mt, w))) =
       history w @ appended build enc cfg (take 0 (inp # inps))"
      by (simp add: appended_def)
    then show ?thesis by blast
  next
    case False
    obtain mt' w' where t: "tick build enc cfg inp (mt, w) = (mt', w')"
      by (cases "tick build enc cfg inp (mt, w)")
    from Cons.IH [of mt' w'] obtain n where n: "n \<le> length inps"
      and h: "history (snd (run_ticks build enc cfg inps (mt', w'))) =
                history w' @ appended build enc cfg (take n inps)"
      by blast
    have "history w' = history w @ appended build enc cfg [inp]"
      using tick_history [of build enc cfg inp mt w] t by simp
    with h False t
    have "history (snd (run_ticks build enc cfg (inp # inps) (mt, w))) =
            history w @ appended build enc cfg (take (Suc n) (inp # inps))"
      by (simp add: appended_def)
    moreover have "Suc n \<le> length (inp # inps)" using n by simp
    ultimately show ?thesis by blast
  qed
qed

lemma tick_full_batches:
  "full_batches cfg w \<Longrightarrow> full_batches cfg (snd (tick build enc cfg inp (mt, w)))"
  by (simp add: full_batches_def tick_sends flushes_def)

lemma run_ticks_full_batches:
  "full_batches cfg w \<Longrightarrow> full_batches cfg (snd (run_ticks build enc cfg inps (mt, w)))"
proof (induction inps arbitrary: mt w)
  case Nil
  then show ?case by simp
next
  case (Cons inp inps)
  obtain mt' w' where t: "tick build enc cfg inp (mt, w) = (mt', w')"
    by (cases "tick build enc cfg inp (mt, w)")
  have "full_batches cfg w'"
    using tick_full_batches [OF Cons.prems, of build enc inp mt] t by simp
  from Cons.IH [OF this] Cons.prems t show ?case by simp
qed

lemma pollMessage_None: "fst (pollMessage enc None) = []"
  by (simp add: pollMessage_def)

lemma tick_empty_poll:
  assumes "fst (pollMessage enc (polled inp)) = []"
  shows "fst (tick build enc cfg inp (mt, w)) = mt"
    and "msgBatch (snd (tick build enc cfg inp (mt, w))) = msgBatch w"
    and "sends (snd (tick build enc cfg inp (mt, w))) = sends w"
  using assms by (simp_all add: tick_fst tick_msgBatch tick_sends flushes_def)

lemma run_ticks_empty_polls:
  assumes "\<forall>inp\<in>set inps. fst (pollMessage enc (polled inp)) = []"
  shows "fst (run_ticks build enc cfg inps (mt, w)) = mt
       \<and> msgBatch (snd (run_ticks build enc cfg inps (mt, w))) = msgBatch w
       \<and> sends (snd (run_ticks build enc cfg inps (mt, w))) = sends w"
  using assms
proof (induction inps arbitrary: w)
  case Nil
  then show ?case by simp
next
  case (Cons inp inps)
  obtain mt' w' where t: "tick build enc cfg inp (mt, w) = (mt', w')"
    by (cases "tick build enc cfg inp (mt, w)")
  have e: "fst (pollMessage enc (polled inp)) = []" using Cons.prems by simp
  have "mt' = mt" "msgBatch w' = msgBatch w" "sends w' = sends w"
    using tick_empty_poll [OF e, of build cfg mt w] t by simp_all
  with Cons.IH [of w'] Cons.prems t show ?case by simp
qed

subsection \<open>The counters at a flush\<close>

text \<open>
  Claim C1, as the program has it. In an iteration that reaches the flush,
  \<^verbatim>\<open>sentBatches\<close> grows by exactly 1 whatever \<^verbatim>\<open>SendMessages\<close> returns (the
  increment of line 110 stands before the send); \<^verbatim>\<open>errors\<close> is unchanged when the
  send succeeds and grows by exactly 1 when it fails. An iteration that does not reach
  the flush leaves both counters as they are. The counters are \<^verbatim>\<open>uint64\<close>: the
  increment wraps at \<open>2^64\<close>.
\<close>

theorem tick_counters:
  "fst (tick build enc cfg inp (mt, w)) =
     (if flushes enc cfg inp w then
        (case sendResult inp of
           None \<Rightarrow> mt\<lparr>sentBatches := sentBatches mt + 1\<rparr>
         | Some e \<Rightarrow> mt\<lparr>sentBatches := sentBatches mt + 1, errors := errors mt + 1\<rparr>)
      else mt)"
  by (simp add: tick_fst flush_fst)

text \<open>
  A success, a failure and an iteration that only appends, from the counters 7 and 2
  with batch size 3.
\<close>

theorem tick_counters_witness:
  "fst (tick envelope plain_enc example_config (yields ''C'' None)
          (\<lparr>sentBatches = 7, errors = 2\<rparr>,
           new_worker\<lparr>msgBatch := [(''load'', ''A''), (''load'', ''B'')]\<rparr>))
     = \<lparr>sentBatches = 8, errors = 2\<rparr>
   \<and> fst (tick envelope plain_enc example_config (yields ''C'' (Some ''broker down''))
          (\<lparr>sentBatches = 7, errors = 2\<rparr>,
           new_worker\<lparr>msgBatch := [(''load'', ''A''), (''load'', ''B'')]\<rparr>))
     = \<lparr>sentBatches = 8, errors = 3\<rparr>
   \<and> fst (tick envelope plain_enc example_config (yields ''B'' (Some ''broker down''))
          (\<lparr>sentBatches = 7, errors = 2\<rparr>, new_worker\<lparr>msgBatch := [(''load'', ''A'')]\<rparr>))
     = \<lparr>sentBatches = 7, errors = 2\<rparr>"
  using
    tick_counters [of envelope plain_enc example_config "yields ''C'' None"
      "\<lparr>sentBatches = 7, errors = 2\<rparr>"
      "new_worker\<lparr>msgBatch := [(''load'', ''A''), (''load'', ''B'')]\<rparr>"]
    tick_counters [of envelope plain_enc example_config "yields ''C'' (Some ''broker down'')"
      "\<lparr>sentBatches = 7, errors = 2\<rparr>"
      "new_worker\<lparr>msgBatch := [(''load'', ''A''), (''load'', ''B'')]\<rparr>"]
    tick_counters [of envelope plain_enc example_config "yields ''B'' (Some ''broker down'')"
      "\<lparr>sentBatches = 7, errors = 2\<rparr>" "new_worker\<lparr>msgBatch := [(''load'', ''A'')]\<rparr>"]
  by (simp add: flushes_def pollMessage_def example_defs)

text \<open>
  Claim C1 as it is written fails where the send fails: the iteration below passes the
  batch A, B, C to \<^verbatim>\<open>SendMessages\<close>, the call returns an error, and
  \<^verbatim>\<open>sentBatches\<close> has gone from 7 to 8.
\<close>

theorem failed_send_increments_sentBatches:
  "sentBatches
     (fst (tick envelope plain_enc example_config (yields ''C'' (Some ''broker down''))
            (\<lparr>sentBatches = 7, errors = 2\<rparr>,
             new_worker\<lparr>msgBatch := [(''load'', ''A''), (''load'', ''B'')]\<rparr>))) = 8
   \<and> sends
     (snd (tick envelope plain_enc example_config (yields ''C'' (Some ''broker down''))
            (\<lparr>sentBatches = 7, errors = 2\<rparr>,
             new_worker\<lparr>msgBatch := [(''load'', ''A''), (''load'', ''B'')]\<rparr>))) =
       [([(''load'', ''A''), (''load'', ''B''), (''load'', ''C'')], Some ''broker down'')]"
  by (simp add: example_defs loop_defs)

subsection \<open>When a worker sends\<close>

text \<open>
  Claim C6. An iteration calls \<^verbatim>\<open>SendMessages\<close> exactly when it polled a payload
  and the batch with the new message has \<^verbatim>\<open>batchSize\<close> messages, and then with that
  whole batch; nothing else in the loop sends, whatever time passes. So every batch a
  worker has passed to \<^verbatim>\<open>SendMessages\<close> had \<^verbatim>\<open>batchSize\<close> messages, and when
  the pool never hands out an object the batch stays empty, no send occurs and the
  counters stay as they are, for any number of ticks.
\<close>

theorem flush_only_on_full_batch:
  "sends (snd (tick build enc cfg inp (mt, w))) =
     (if flushes enc cfg inp w
      then sends w @ [(msgBatch w @ [build (topic cfg) (fst (pollMessage enc (polled inp)))],
                       sendResult inp)]
      else sends w)
   \<and> full_batches cfg (snd (run_ticks build enc cfg inps (mt, new_worker)))
   \<and> ((\<forall>inp\<in>set inps. polled inp = None) \<longrightarrow>
        msgBatch (snd (run_ticks build enc cfg inps (mt, new_worker))) = [] \<and>
        sends (snd (run_ticks build enc cfg inps (mt, new_worker))) = [] \<and>
        fst (run_ticks build enc cfg inps (mt, new_worker)) = mt)"
proof -
  have "full_batches cfg (new_worker :: 'a worker)"
    by (simp add: full_batches_def new_worker_def)
  then have a: "full_batches cfg (snd (run_ticks build enc cfg inps (mt, new_worker)))"
    by (rule run_ticks_full_batches)
  have b: "fst (run_ticks build enc cfg inps (mt, new_worker)) = mt
       \<and> msgBatch (snd (run_ticks build enc cfg inps (mt, new_worker))) = msgBatch (new_worker :: 'a worker)
       \<and> sends (snd (run_ticks build enc cfg inps (mt, new_worker))) = sends (new_worker :: 'a worker)"
    if "\<forall>inp\<in>set inps. polled inp = None"
    using that by (intro run_ticks_empty_polls) (simp add: pollMessage_None)
  show ?thesis
    using a b by (simp add: tick_sends new_worker_def)
qed

text \<open>Five ticks on an empty pool; and the six polls A to F with batch size 3.\<close>

theorem flush_only_on_full_batch_witness:
  "sends (snd (run_ticks envelope plain_enc example_config
                 [idle_tick, idle_tick, idle_tick, idle_tick, idle_tick]
                 (initMetrics, new_worker))) = []
   \<and> msgBatch (snd (run_ticks envelope plain_enc example_config
                 [idle_tick, idle_tick, idle_tick, idle_tick, idle_tick]
                 (initMetrics, new_worker))) = []
   \<and> full_batches example_config
        (snd (run_ticks envelope plain_enc example_config six_ticks (initMetrics, new_worker)))
   \<and> map fst (sends (snd (run_ticks envelope plain_enc example_config six_ticks
                            (initMetrics, new_worker)))) =
       [[(''load'', ''A''), (''load'', ''B''), (''load'', ''C'')],
        [(''load'', ''D''), (''load'', ''E''), (''load'', ''F'')]]"
proof -
  have idle: "\<forall>inp\<in>set [idle_tick, idle_tick, idle_tick, idle_tick, idle_tick]. polled inp = None"
    by (simp add: idle_tick_def)
  have six: "map fst (sends (snd (run_ticks envelope plain_enc example_config six_ticks
                            (initMetrics, new_worker)))) =
       [[(''load'', ''A''), (''load'', ''B''), (''load'', ''C'')],
        [(''load'', ''D''), (''load'', ''E''), (''load'', ''F'')]]"
    by (simp add: example_defs loop_defs)
  show ?thesis
    using idle six
      flush_only_on_full_batch [of envelope plain_enc example_config idle_tick initMetrics new_worker
        "[idle_tick, idle_tick, idle_tick, idle_tick, idle_tick]"]
      flush_only_on_full_batch [of envelope plain_enc example_config idle_tick initMetrics new_worker
        six_ticks]
    by simp
qed

subsection \<open>The batch after a flush\<close>

text \<open>
  Claim C7. The flush leaves the batch empty whether \<^verbatim>\<open>SendMessages\<close> returned an
  error or not, so the iteration that flushes ends on an empty batch. No message is
  passed to \<^verbatim>\<open>SendMessages\<close> twice: an iteration adds to the messages sent or
  waiting exactly the message of the payload it polled, so after any run of a new worker
  the batches sent, one after the other, followed by the batch being filled, are the
  messages of the payloads polled in the iterations executed, each once and in order.
\<close>

theorem batch_cleared_after_flush:
  "msgBatch (snd (flush r (mt, w))) = []
   \<and> (flushes enc cfg inp w \<longrightarrow> msgBatch (snd (tick build enc cfg inp (mt, w))) = [])
   \<and> history (snd (tick build enc cfg inp (mt, w))) = history w @ appended build enc cfg [inp]
   \<and> (\<exists>n\<le>length inps.
        history (snd (run_ticks build enc cfg inps (mt, new_worker))) =
          appended build enc cfg (take n inps))"
proof -
  have "history (new_worker :: 'a worker) = []"
    by (simp add: history_def new_worker_def)
  with run_ticks_history [of inps build enc cfg mt new_worker]
  have "\<exists>n\<le>length inps.
        history (snd (run_ticks build enc cfg inps (mt, new_worker))) =
          appended build enc cfg (take n inps)"
    by simp
  then show ?thesis
    by (simp add: flush_msgBatch tick_msgBatch tick_history flushes_def)
qed

text \<open>
  The failing flush of A, B, C ends on an empty batch; after the six polls A to F the
  messages sent are A to F, each once.
\<close>

theorem batch_cleared_after_flush_witness:
  "flushes plain_enc example_config (yields ''C'' (Some ''broker down''))
     (new_worker\<lparr>msgBatch := [(''load'', ''A''), (''load'', ''B'')]\<rparr>)
   \<and> msgBatch (snd (tick envelope plain_enc example_config (yields ''C'' (Some ''broker down''))
        (initMetrics, new_worker\<lparr>msgBatch := [(''load'', ''A''), (''load'', ''B'')]\<rparr>))) = []
   \<and> history (snd (run_ticks envelope plain_enc example_config six_ticks (initMetrics, new_worker)))
       = [(''load'', ''A''), (''load'', ''B''), (''load'', ''C''),
          (''load'', ''D''), (''load'', ''E''), (''load'', ''F'')]"
proof -
  have f: "flushes plain_enc example_config (yields ''C'' (Some ''broker down''))
     (new_worker\<lparr>msgBatch := [(''load'', ''A''), (''load'', ''B'')]\<rparr>)"
    by (simp add: flushes_def pollMessage_def example_defs)
  have h: "history (snd (run_ticks envelope plain_enc example_config six_ticks (initMetrics, new_worker)))
       = [(''load'', ''A''), (''load'', ''B''), (''load'', ''C''),
          (''load'', ''D''), (''load'', ''E''), (''load'', ''F'')]"
    by (simp add: history_def example_defs loop_defs)
  show ?thesis
    using f h
      batch_cleared_after_flush [of "Some ''broker down''" initMetrics
        "new_worker\<lparr>msgBatch := [(''load'', ''A''), (''load'', ''B'')]\<rparr>"
        plain_enc example_config "yields ''C'' (Some ''broker down'')" envelope six_ticks]
    by simp
qed

subsection \<open>What sentBatches counts\<close>

lemmas count_defs = attempts_def calls_made_def successes_def failures_def in_progress_def
  about_to_call_def about_to_count_error_def counted_failures_def

lemma advance_L110:
  "advance build enc cfg inp (mt, p\<lparr>pc := L110\<rparr>) =
     (mt\<lparr>sentBatches := sentBatches mt + 1\<rparr>, p\<lparr>pc := L111\<rparr>)"
  by (simp add: advance_def)

lemma advance_L111:
  "advance build enc cfg inp (mt, p\<lparr>pc := L111\<rparr>) = (mt, p\<lparr>pc := InSendMessages\<rparr>)"
  by (simp add: advance_def)

lemma advance_return:
  "fst (advance build enc cfg inp (mt, p\<lparr>pc := InSendMessages\<rparr>)) = mt"
  by (simp add: advance_def Let_def split: option.split)

lemma advance_counts:
  assumes a: "advance build enc cfg inp (mt, p) = (mt', p')"
    and ok: "about_to_count_error p \<le> failures p"
  shows "sentBatches mt' = sentBatches mt + (if pc p = L110 then 1 else 0)"
    and "attempts p' = attempts p + (if pc p = L110 then 1 else 0)"
    and "errors mt' = errors mt + of_nat (about_to_count_error p)"
    and "counted_failures p' = counted_failures p + about_to_count_error p"
    and "about_to_count_error p' \<le> failures p'"
proof -
  show "sentBatches mt' = sentBatches mt + (if pc p = L110 then 1 else 0)"
    using a by (cases "pc p")
      (auto simp: advance_def Let_def select_stop_def split: prod.splits if_splits option.splits)
  show "attempts p' = attempts p + (if pc p = L110 then 1 else 0)"
    using a by (cases "pc p")
      (auto simp: advance_def Let_def select_stop_def count_defs
        split: prod.splits if_splits option.splits)
  show "errors mt' = errors mt + of_nat (about_to_count_error p)"
    using a by (cases "pc p")
      (auto simp: advance_def Let_def select_stop_def count_defs
        split: prod.splits if_splits option.splits)
  show "counted_failures p' = counted_failures p + about_to_count_error p"
    using a ok by (cases "pc p")
      (auto simp: advance_def Let_def select_stop_def count_defs
        split: prod.splits if_splits option.splits)
  show "about_to_count_error p' \<le> failures p'"
    using a ok by (cases "pc p")
      (auto simp: advance_def Let_def select_stop_def count_defs
        split: prod.splits if_splits option.splits)
qed

lemma attempts_split:
  "attempts p = successes p + failures p + in_progress p + about_to_call p"
  by (simp add: attempts_def calls_made_def)

lemma counted_failures_split:
  "about_to_count_error p \<le> failures p \<Longrightarrow>
     counted_failures p + about_to_count_error p = failures p"
  by (simp add: counted_failures_def)

lemma sum_list_map_update:
  fixes f :: "'a \<Rightarrow> nat"
  assumes "i < length xs"
  shows "sum_list (map f (xs[i := x])) + f (xs ! i) = sum_list (map f xs) + f x"
  using assms
proof (induction xs arbitrary: i)
  case Nil
  then show ?case by simp
next
  case (Cons a xs)
  then show ?case by (cases i) (simp_all add: algebra_simps)
qed

lemma total_update:
  assumes "i < length ps" and "f p' = f (ps ! i) + d"
  shows "total f (ps[i := p']) = total f ps + d"
  using sum_list_map_update [OF assms(1), of f p'] assms(2) by (simp add: total_def)

lemma total_attempts_split:
  "total attempts ps =
     total successes ps + total failures ps + total in_progress ps + total about_to_call ps"
  unfolding total_def by (induction ps) (simp_all add: attempts_split)

lemma total_counted_failures:
  "list_all (\<lambda>p. about_to_count_error p \<le> failures p) ps \<Longrightarrow>
     total counted_failures ps + total about_to_count_error ps = total failures ps"
  unfolding total_def
proof (induction ps)
  case Nil
  then show ?case by simp
next
  case (Cons a ps)
  have "counted_failures a + about_to_count_error a = failures a"
    using Cons.prems by (simp add: counted_failures_split)
  moreover have "sum_list (map counted_failures ps) + sum_list (map about_to_count_error ps)
      = sum_list (map failures ps)"
    using Cons by simp
  ultimately show ?case by simp
qed

lemma pool_step_inv:
  assumes "pool_inv (mt, ps)"
  shows "pool_inv (pool_step build enc cfg ev (mt, ps))"
proof -
  obtain i inp where ev: "ev = (i, inp)" by (cases ev)
  show ?thesis
  proof (cases "i < length ps")
    case False
    then show ?thesis using assms ev by (simp add: pool_step_def)
  next
    case True
    obtain mt' p' where t: "advance build enc cfg inp (mt, ps ! i) = (mt', p')"
      by (cases "advance build enc cfg inp (mt, ps ! i)")
    have step: "pool_step build enc cfg ev (mt, ps) = (mt', ps[i := p'])"
      using True ev t by (simp add: pool_step_def)
    have all: "list_all (\<lambda>p. about_to_count_error p \<le> failures p) ps"
      using assms by (simp add: pool_inv_def)
    have ok: "about_to_count_error (ps ! i) \<le> failures (ps ! i)"
      using all True by (simp add: list_all_length)
    note c = advance_counts [OF t ok]
    have ta: "total attempts (ps[i := p']) = total attempts ps + (if pc (ps ! i) = L110 then 1 else 0)"
      by (rule total_update [OF True c(2)])
    have tf: "total counted_failures (ps[i := p']) =
        total counted_failures ps + about_to_count_error (ps ! i)"
      by (rule total_update [OF True c(4)])
    have all': "list_all (\<lambda>p. about_to_count_error p \<le> failures p) (ps[i := p'])"
      using all c(5) True by (auto simp: list_all_length nth_list_update)
    show ?thesis
      using assms unfolding step pool_inv_def
      by (simp add: ta tf c(1) c(3) all')
  qed
qed

lemma pool_run_inv:
  "pool_inv mps \<Longrightarrow> pool_inv (pool_run build enc cfg evs mps)"
proof (induction evs arbitrary: mps)
  case Nil
  then show ?case by simp
next
  case (Cons ev evs)
  obtain mt ps where "mps = (mt, ps)" by (cases mps)
  with Cons.prems have "pool_inv (pool_step build enc cfg ev mps)"
    using pool_step_inv by blast
  from Cons.IH [OF this] show ?case by simp
qed

lemma total_replicate: "total f (replicate n p) = n * f p"
  unfolding total_def by (induction n) simp_all

lemma pool_inv_fresh: "pool_inv (fresh_pool n)"
  by (simp add: pool_inv_def fresh_pool_def initMetrics_def total_replicate count_defs
      new_running_def new_worker_def list_all_length)

lemma word64_of_nat_mono:
  assumes "a \<le> b" "b < 2 ^ 64"
  shows "(of_nat a :: 64 word) \<le> of_nat b"
  using assms by (simp add: word_le_nat_alt unat_of_nat)

lemma advance_at:
  "advance build enc cfg inp (mt, \<lparr>own = w, pc = L110\<rparr>) =
     (mt\<lparr>sentBatches := sentBatches mt + 1\<rparr>, \<lparr>own = w, pc = L111\<rparr>)"
  "advance build enc cfg inp (mt, \<lparr>own = w, pc = L111\<rparr>) = (mt, \<lparr>own = w, pc = InSendMessages\<rparr>)"
  "advance build enc cfg inp (mt, \<lparr>own = w, pc = InSendMessages\<rparr>) =
     (mt, \<lparr>own = w\<lparr>sends := sends w @ [(msgBatch w, sendResult inp)], msgBatch := []\<rparr>,
           pc = (case sendResult inp of None \<Rightarrow> L119 | Some e \<Rightarrow> L114 e)\<rparr>)"
  "advance build enc cfg inp (mt, \<lparr>own = w, pc = L114 e\<rparr>) =
     (mt\<lparr>errors := errors mt + 1\<rparr>,
      \<lparr>own = w\<lparr>console := console w @ [''Error while sending'', e]\<rparr>, pc = L119\<rparr>)"
  "advance build enc cfg inp (mt, \<lparr>own = w, pc = L119\<rparr>) =
     (mt, \<lparr>own = snd (select_stop (stopReady inp) (mt, w)),
           pc = (if stopped (snd (select_stop (stopReady inp) (mt, w))) then Returned else L101)\<rparr>)"
  by (simp_all add: advance_def Let_def select_stop_def split: option.split)

lemma finish_at:
  "finish (Suc n) build enc cfg inp (mt, \<lparr>own = w, pc = L101\<rparr>) = (mt, \<lparr>own = w, pc = L101\<rparr>)"
  "finish (Suc n) build enc cfg inp (mt, \<lparr>own = w, pc = Returned\<rparr>) = (mt, \<lparr>own = w, pc = Returned\<rparr>)"
  "finish (Suc n) build enc cfg inp (mt, \<lparr>own = w, pc = L110\<rparr>) =
     finish n build enc cfg inp (advance build enc cfg inp (mt, \<lparr>own = w, pc = L110\<rparr>))"
  "finish (Suc n) build enc cfg inp (mt, \<lparr>own = w, pc = L111\<rparr>) =
     finish n build enc cfg inp (advance build enc cfg inp (mt, \<lparr>own = w, pc = L111\<rparr>))"
  "finish (Suc n) build enc cfg inp (mt, \<lparr>own = w, pc = InSendMessages\<rparr>) =
     finish n build enc cfg inp (advance build enc cfg inp (mt, \<lparr>own = w, pc = InSendMessages\<rparr>))"
  "finish (Suc n) build enc cfg inp (mt, \<lparr>own = w, pc = L114 e\<rparr>) =
     finish n build enc cfg inp (advance build enc cfg inp (mt, \<lparr>own = w, pc = L114 e\<rparr>))"
  "finish (Suc n) build enc cfg inp (mt, \<lparr>own = w, pc = L119\<rparr>) =
     finish n build enc cfg inp (advance build enc cfg inp (mt, \<lparr>own = w, pc = L119\<rparr>))"
  by simp_all

lemma finish_select:
  "finish (Suc n) build enc cfg inp (mt, \<lparr>own = w, pc = L119\<rparr>) =
     (mt, \<lparr>own = snd (select_stop (stopReady inp) (mt, w)),
           pc = (if stopped (snd (select_stop (stopReady inp) (mt, w))) then Returned else L101)\<rparr>)"
  by (cases n) (simp_all add: advance_at)

lemma select_stop_eq:
  "select_stop b (mt, w) = (mt, snd (select_stop b (mt, w)))"
  by (simp add: select_stop_def)

lemma five: "(5::nat) = Suc (Suc (Suc (Suc (Suc 0))))"
  by simp

text \<open>
  The statement-by-statement loop is the loop of \<open>tick\<close>: a worker that runs one whole
  iteration without another worker in between ends where \<open>tick\<close> ends.
\<close>

lemma iteration_tick:
  assumes p: "pc p = L101" and ns: "\<not> stopped (own p)"
  shows "iteration build enc cfg inp (mt, p) =
     (let (mt', w') = tick build enc cfg inp (mt, own p)
      in (mt', \<lparr>own = w', pc = (if stopped w' then Returned else L101)\<rparr>))"
proof -
  obtain m printed where pm: "pollMessage enc (polled inp) = (m, printed)"
    by (cases "pollMessage enc (polled inp)")
  define w1 where "w1 = (own p)\<lparr>console := console (own p) @ printed\<rparr>"
  define w2 where "w2 = w1\<lparr>msgBatch := msgBatch w1 @ [build (topic cfg) m]\<rparr>"
  have pe: "p = \<lparr>own = own p, pc = L101\<rparr>" using p by (cases p) simp
  show ?thesis
  proof (cases "m = []")
    case True
    define w3 where "w3 = w1\<lparr>console := console w1 @ [''Could not retrieve message from pool'']\<rparr>"
    have a: "advance build enc cfg inp (mt, p) = (mt, \<lparr>own = w3, pc = L119\<rparr>)"
      using p True by (simp add: advance_def pm Let_def w1_def w3_def)
    have t: "tick build enc cfg inp (mt, own p) = select_stop (stopReady inp) (mt, w3)"
      using True by (simp add: tick_def pm Let_def w1_def w3_def)
    show ?thesis
      unfolding iteration_def five a t finish_select
      by (subst (3) select_stop_eq) simp
  next
    case False
    show ?thesis
    proof (cases "int (length (msgBatch w2)) \<noteq> batchSize cfg")
      case True
      have a: "advance build enc cfg inp (mt, p) = (mt, \<lparr>own = w2, pc = L101\<rparr>)"
        using p False True by (simp add: advance_def pm Let_def w1_def w2_def)
      have t: "tick build enc cfg inp (mt, own p) = (mt, w2)"
        using False True by (simp add: tick_def pm Let_def w1_def w2_def)
      have s: "\<not> stopped w2" using ns by (simp add: w1_def w2_def)
      show ?thesis
        unfolding iteration_def five a t finish_at using s by simp
    next
      case full: False
      have a: "advance build enc cfg inp (mt, p) = (mt, \<lparr>own = w2, pc = L110\<rparr>)"
        using p False full by (simp add: advance_def pm Let_def w1_def w2_def)
      have t: "tick build enc cfg inp (mt, own p) =
          select_stop (stopReady inp) (flush (sendResult inp) (mt, w2))"
        using False full by (simp add: tick_def pm Let_def w1_def w2_def)
      show ?thesis
      proof (cases "sendResult inp")
        case None
        define w4 where "w4 = w2\<lparr>sends := sends w2 @ [(msgBatch w2, None)], msgBatch := []\<rparr>"
        have f: "flush (sendResult inp) (mt, w2) = (mt\<lparr>sentBatches := sentBatches mt + 1\<rparr>, w4)"
          by (simp add: flush_def None Let_def w4_def)
        have c: "finish (Suc (Suc (Suc (Suc (Suc 0))))) build enc cfg inp (mt, \<lparr>own = w2, pc = L110\<rparr>) =
            finish (Suc (Suc 0)) build enc cfg inp
              (mt\<lparr>sentBatches := sentBatches mt + 1\<rparr>, \<lparr>own = w4, pc = L119\<rparr>)"
          by (simp add: advance_at None w4_def del: finish.simps add: finish_at)
        show ?thesis
          unfolding iteration_def five a t f c finish_select
          by (subst (3) select_stop_eq) simp
      next
        case (Some e)
        define w4 where "w4 = w2\<lparr>sends := sends w2 @ [(msgBatch w2, Some e)], msgBatch := []\<rparr>"
        define w5 where "w5 = w4\<lparr>console := console w4 @ [''Error while sending'', e]\<rparr>"
        have f: "flush (sendResult inp) (mt, w2) =
            (mt\<lparr>sentBatches := sentBatches mt + 1, errors := errors mt + 1\<rparr>, w5)"
          by (simp add: flush_def Some Let_def w4_def w5_def)
        have c: "finish (Suc (Suc (Suc (Suc (Suc 0))))) build enc cfg inp (mt, \<lparr>own = w2, pc = L110\<rparr>) =
            finish (Suc 0) build enc cfg inp
              (mt\<lparr>sentBatches := sentBatches mt + 1, errors := errors mt + 1\<rparr>,
               \<lparr>own = w5, pc = L119\<rparr>)"
          by (simp add: advance_at Some w4_def w5_def del: finish.simps add: finish_at)
        show ?thesis
          unfolding iteration_def five a t f c finish_select
          by (subst (3) select_stop_eq) simp
      qed
    qed
  qed
qed

text \<open>
  Claim C10. Line 110 increments \<^verbatim>\<open>sentBatches\<close> and leads to the call of
  \<^verbatim>\<open>SendMessages\<close> on line 111; the call begins only from there, so the increment
  is done before the send, and the return of the call, with an error or without, leaves
  \<^verbatim>\<open>sentBatches\<close> as it is. For any number of workers started on new counters
  and at every instant of every interleaving of their statements (also while calls are
  in progress), \<^verbatim>\<open>sentBatches\<close> is the number of flush attempts begun by all
  workers: the calls that returned nil, the calls that returned an error, the calls in
  progress and the calls about to be made by the workers that stand between line 110 and
  line 111. \<^verbatim>\<open>errors\<close> is the number of failed calls whose line 114 is done: the
  failed calls less the workers that stand before line 114. Both counters are
  \<^verbatim>\<open>uint64\<close>, that is the numbers modulo \<open>2^64\<close>; below \<open>2^64\<close> attempts
  \<^verbatim>\<open>errors\<close> is at most \<^verbatim>\<open>sentBatches\<close>.
\<close>

theorem sentBatches_counts_attempts:
  fixes build :: "string \<Rightarrow> bytes \<Rightarrow> 'm" and p :: "'m running"
  shows
  "advance build enc cfg inp (mt, p\<lparr>pc := L110\<rparr>) =
     (mt\<lparr>sentBatches := sentBatches mt + 1\<rparr>, p\<lparr>pc := L111\<rparr>)
   \<and> advance build enc cfg inp (mt, p\<lparr>pc := L111\<rparr>) = (mt, p\<lparr>pc := InSendMessages\<rparr>)
   \<and> fst (advance build enc cfg inp (mt, p\<lparr>pc := InSendMessages\<rparr>)) = mt
   \<and> sentBatches (fst (pool_run build enc cfg evs (fresh_pool n)))
       = of_nat (total attempts (snd (pool_run build enc cfg evs (fresh_pool n))))
   \<and> total attempts (snd (pool_run build enc cfg evs (fresh_pool n)))
       = total successes (snd (pool_run build enc cfg evs (fresh_pool n)))
         + total failures (snd (pool_run build enc cfg evs (fresh_pool n)))
         + total in_progress (snd (pool_run build enc cfg evs (fresh_pool n)))
         + total about_to_call (snd (pool_run build enc cfg evs (fresh_pool n)))
   \<and> errors (fst (pool_run build enc cfg evs (fresh_pool n)))
       = of_nat (total counted_failures (snd (pool_run build enc cfg evs (fresh_pool n))))
   \<and> total counted_failures (snd (pool_run build enc cfg evs (fresh_pool n)))
       + total about_to_count_error (snd (pool_run build enc cfg evs (fresh_pool n)))
       = total failures (snd (pool_run build enc cfg evs (fresh_pool n)))
   \<and> (total attempts (snd (pool_run build enc cfg evs (fresh_pool n))) < 2 ^ 64
        \<longrightarrow> errors (fst (pool_run build enc cfg evs (fresh_pool n)))
              \<le> sentBatches (fst (pool_run build enc cfg evs (fresh_pool n))))"
proof -
  define res where "res = pool_run build enc cfg evs (fresh_pool n :: producerMetrics \<times> 'm running list)"
  have "pool_inv res"
    unfolding res_def by (rule pool_run_inv [OF pool_inv_fresh])
  then have c: "sentBatches (fst res) = of_nat (total attempts (snd res))"
    "errors (fst res) = of_nat (total counted_failures (snd res))"
    and ok: "list_all (\<lambda>p. about_to_count_error p \<le> failures p) (snd res)"
    by (simp_all add: pool_inv_def)
  have s: "total attempts (snd res) =
      total successes (snd res) + total failures (snd res) + total in_progress (snd res)
        + total about_to_call (snd res)"
    by (rule total_attempts_split)
  have f: "total counted_failures (snd res) + total about_to_count_error (snd res)
      = total failures (snd res)"
    by (rule total_counted_failures [OF ok])
  have le: "total counted_failures (snd res) \<le> total attempts (snd res)"
    using f s by linarith
  have w: "errors (fst res) \<le> sentBatches (fst res)" if "total attempts (snd res) < 2 ^ 64"
    unfolding c by (rule word64_of_nat_mono [OF le that])
  show ?thesis
    unfolding res_def [symmetric]
    using c s f w advance_L110 [of build enc cfg inp mt p] advance_L111 [of build enc cfg inp mt p]
      advance_return [of build enc cfg inp mt p]
    by (intro conjI impI)
qed

text \<open>
  Three workers in the middle of a flush: three attempts counted, one call failed and not
  yet counted as an error, one call in progress, one about to be made.
\<close>

theorem sentBatches_counts_attempts_witness:
  "pool_run envelope plain_enc (example_config\<lparr>batchSize := 1\<rparr>) three_in_a_flush (fresh_pool 3)
     = (\<lparr>sentBatches = 3, errors = 0\<rparr>,
        [\<lparr>own = \<lparr>msgBatch = [], sends = [([(''load'', ''A'')], Some ''broker down'')],
                 console = [], stopped = False\<rparr>, pc = L114 ''broker down''\<rparr>,
         \<lparr>own = \<lparr>msgBatch = [(''load'', ''B'')], sends = [], console = [], stopped = False\<rparr>,
          pc = InSendMessages\<rparr>,
         \<lparr>own = \<lparr>msgBatch = [(''load'', ''C'')], sends = [], console = [], stopped = False\<rparr>,
          pc = L111\<rparr>])
   \<and> total attempts (snd (pool_run envelope plain_enc (example_config\<lparr>batchSize := 1\<rparr>)
        three_in_a_flush (fresh_pool 3))) = 3
   \<and> total successes (snd (pool_run envelope plain_enc (example_config\<lparr>batchSize := 1\<rparr>)
        three_in_a_flush (fresh_pool 3))) = 0
   \<and> total failures (snd (pool_run envelope plain_enc (example_config\<lparr>batchSize := 1\<rparr>)
        three_in_a_flush (fresh_pool 3))) = 1
   \<and> total in_progress (snd (pool_run envelope plain_enc (example_config\<lparr>batchSize := 1\<rparr>)
        three_in_a_flush (fresh_pool 3))) = 1
   \<and> total about_to_call (snd (pool_run envelope plain_enc (example_config\<lparr>batchSize := 1\<rparr>)
        three_in_a_flush (fresh_pool 3))) = 1
   \<and> total counted_failures (snd (pool_run envelope plain_enc (example_config\<lparr>batchSize := 1\<rparr>)
        three_in_a_flush (fresh_pool 3))) = 0
   \<and> total about_to_count_error (snd (pool_run envelope plain_enc (example_config\<lparr>batchSize := 1\<rparr>)
        three_in_a_flush (fresh_pool 3))) = 1
   \<and> errors (fst (pool_run envelope plain_enc (example_config\<lparr>batchSize := 1\<rparr>)
        three_in_a_flush (fresh_pool 3)))
       \<le> sentBatches (fst (pool_run envelope plain_enc (example_config\<lparr>batchSize := 1\<rparr>)
        three_in_a_flush (fresh_pool 3)))"
proof -
  have run: "pool_run envelope plain_enc (example_config\<lparr>batchSize := 1\<rparr>) three_in_a_flush
       (fresh_pool 3)
     = (\<lparr>sentBatches = 3, errors = 0\<rparr>,
        [\<lparr>own = \<lparr>msgBatch = [], sends = [([(''load'', ''A'')], Some ''broker down'')],
                 console = [], stopped = False\<rparr>, pc = L114 ''broker down''\<rparr>,
         \<lparr>own = \<lparr>msgBatch = [(''load'', ''B'')], sends = [], console = [], stopped = False\<rparr>,
          pc = InSendMessages\<rparr>,
         \<lparr>own = \<lparr>msgBatch = [(''load'', ''C'')], sends = [], console = [], stopped = False\<rparr>,
          pc = L111\<rparr>])"
    by code_simp
  show ?thesis
    using sentBatches_counts_attempts [of envelope plain_enc "example_config\<lparr>batchSize := 1\<rparr>"
        idle_tick initMetrics new_running three_in_a_flush 3]
    unfolding run
    by (simp add: total_def count_defs)
qed

section \<open>Properties of the float64 operations\<close>

lemma p2_div: "(2::real) powi a / 2 powi b = 2 powi (a - b)"
  by (simp add: power_int_diff)

lemma bitlen_real_bounds:
  assumes "0 < n"
  shows "2 powi (bitlen n - 1) \<le> real_of_int n" and "real_of_int n < 2 powi (bitlen n)"
proof -
  have b: "2 ^ nat (bitlen n - 1) \<le> n" "n < 2 ^ nat (bitlen n)"
    using bitlen_bounds [OF assms] by simp_all
  have p: "1 \<le> bitlen n" using assms bitlen_eq_zero_iff [of n] bitlen_nonneg [of n] by linarith
  have "real_of_int (2 ^ nat (bitlen n - 1)) \<le> real_of_int n" using b(1) by linarith
  then show "2 powi (bitlen n - 1) \<le> real_of_int n" using p by (simp add: power_int_nonneg_exp)
  have "real_of_int n < real_of_int (2 ^ nat (bitlen n))" using b(2) by linarith
  then show "real_of_int n < 2 powi (bitlen n)" using p by (simp add: power_int_nonneg_exp)
qed

lemma ilog2_ratio_test:
  assumes "0 < n" "0 < d"
  shows "(if 0 \<le> k then d * 2 ^ nat k \<le> n else d \<le> n * 2 ^ nat (- k))
         \<longleftrightarrow> (2::real) powi k \<le> real_of_int n / real_of_int d"
proof (cases "0 \<le> k")
  case True
  have "(d * 2 ^ nat k \<le> n) \<longleftrightarrow> (real_of_int (d * 2 ^ nat k) \<le> real_of_int n)" by linarith
  also have "\<dots> \<longleftrightarrow> (2::real) ^ nat k \<le> real_of_int n / real_of_int d"
    using assms by (simp add: pos_le_divide_eq mult.commute)
  finally show ?thesis using True by (simp add: power_int_nonneg_exp)
next
  case False
  then have k: "k = - int (nat (- k))" by simp
  have "(d \<le> n * 2 ^ nat (- k)) \<longleftrightarrow> (real_of_int d \<le> real_of_int (n * 2 ^ nat (- k)))" by linarith
  also have "\<dots> \<longleftrightarrow> 1 / (2::real) ^ nat (- k) \<le> real_of_int n / real_of_int d"
    using assms by (simp add: field_simps)
  also have "1 / (2::real) ^ nat (- k) = 2 powi k"
    by (subst (2) k, subst power_int_minus_divide, subst power_int_of_nat) (rule refl)
  finally show ?thesis using False by simp
qed

lemma ilog2_ratio_bounds:
  assumes "0 < n" "0 < d"
  shows "2 powi (ilog2_ratio n d) \<le> real_of_int n / real_of_int d"
    and "real_of_int n / real_of_int d < 2 powi (ilog2_ratio n d + 1)"
proof -
  define k where "k = bitlen n - bitlen d"
  note bn = bitlen_real_bounds [OF assms(1)]
  note bd = bitlen_real_bounds [OF assms(2)]
  have dpos: "0 < real_of_int d" using assms by simp
  have npos: "0 < real_of_int n" using assms by simp
  have up: "real_of_int n / real_of_int d < 2 powi (k + 1)"
  proof -
    have "real_of_int n / real_of_int d < 2 powi (bitlen n) / real_of_int d"
      using bn(2) dpos by (simp add: divide_strict_right_mono)
    also have "\<dots> \<le> 2 powi (bitlen n) / 2 powi (bitlen d - 1)"
    proof (rule divide_left_mono)
      show "2 powi (bitlen d - 1) \<le> real_of_int d" by (rule bd(1))
      show "0 \<le> (2::real) powi bitlen n" by simp
      show "0 < real_of_int d * 2 powi (bitlen d - 1)" using dpos by simp
    qed
    also have "\<dots> = 2 powi (k + 1)"
    proof -
      have "bitlen n - (bitlen d - 1) = k + 1" by (simp add: k_def)
      then show ?thesis using p2_div [of "bitlen n" "bitlen d - 1"] by (simp only:)
    qed
    finally show ?thesis .
  qed
  have lo: "2 powi (k - 1) \<le> real_of_int n / real_of_int d"
  proof -
    have "(bitlen n - 1) - bitlen d = k - 1" by (simp add: k_def)
    then have "(2::real) powi (k - 1) = 2 powi (bitlen n - 1) / 2 powi (bitlen d)"
      using p2_div [of "bitlen n - 1" "bitlen d"] by (simp only:)
    also have "\<dots> \<le> real_of_int n / 2 powi (bitlen d)"
      using bn(1) by (simp add: divide_right_mono)
    also have "\<dots> \<le> real_of_int n / real_of_int d"
      using bd(2) npos dpos by (intro divide_left_mono) simp_all
    finally show ?thesis .
  qed
  have t: "(if 0 \<le> k then d * 2 ^ nat k \<le> n else d \<le> n * 2 ^ nat (- k))
         \<longleftrightarrow> (2::real) powi k \<le> real_of_int n / real_of_int d"
    by (rule ilog2_ratio_test [OF assms])
  show "2 powi (ilog2_ratio n d) \<le> real_of_int n / real_of_int d"
    using t lo unfolding ilog2_ratio_def k_def [symmetric] Let_def by auto
  show "real_of_int n / real_of_int d < 2 powi (ilog2_ratio n d + 1)"
    using t up unfolding ilog2_ratio_def k_def [symmetric] Let_def by auto
qed

lemma round_half_even_props:
  assumes "0 < D"
  shows "\<bar>real_of_int (round_half_even N D) - real_of_int N / real_of_int D\<bar> \<le> 1 / 2"
    and "real_of_int K \<le> real_of_int N / real_of_int D \<Longrightarrow> K \<le> round_half_even N D"
    and "real_of_int N / real_of_int D \<le> real_of_int K \<Longrightarrow> round_half_even N D \<le> K"
proof -
  define q where "q = N div D"
  define r where "r = N mod D"
  have N: "N = q * D + r" by (simp add: q_def r_def)
  have r: "0 \<le> r" "r < D" using assms by (simp_all add: r_def)
  have Dr: "0 < real_of_int D" using assms by simp
  have y: "real_of_int N / real_of_int D = real_of_int q + real_of_int r / real_of_int D"
    using Dr by (simp add: N field_simps)
  have rd: "0 \<le> real_of_int r / real_of_int D" "real_of_int r / real_of_int D < 1"
    using r Dr by simp_all
  have res: "round_half_even N D =
     (if 2 * r < D then q else if D < 2 * r then q + 1 else if even q then q else q + 1)"
    by (simp add: round_half_even_def q_def r_def Let_def)
  have half1: "2 * r < D \<Longrightarrow> real_of_int r / real_of_int D < 1 / 2"
    using Dr by (simp add: field_simps)
  have half2: "D < 2 * r \<Longrightarrow> 1 / 2 < real_of_int r / real_of_int D"
    using Dr by (simp add: field_simps)
  have half3: "\<not> 2 * r < D \<Longrightarrow> \<not> D < 2 * r \<Longrightarrow> real_of_int r / real_of_int D = 1 / 2"
  proof -
    assume "\<not> 2 * r < D" "\<not> D < 2 * r"
    then have "D = 2 * r" by linarith
    then show ?thesis using Dr by simp
  qed
  show "\<bar>real_of_int (round_half_even N D) - real_of_int N / real_of_int D\<bar> \<le> 1 / 2"
    unfolding res y using half1 half2 half3 rd by (auto simp: abs_if)
  show "K \<le> round_half_even N D" if "real_of_int K \<le> real_of_int N / real_of_int D"
  proof -
    have "real_of_int K < real_of_int q + 1" using that y rd by linarith
    then have "K \<le> q" by linarith
    then show ?thesis unfolding res by auto
  qed
  show "round_half_even N D \<le> K" if "real_of_int N / real_of_int D \<le> real_of_int K"
  proof (cases "r = 0")
    case True
    then have "real_of_int q \<le> real_of_int K" using that y by simp
    then have "q \<le> K" by linarith
    then show ?thesis unfolding res using True assms by auto
  next
    case False
    then have "0 < real_of_int r / real_of_int D" using r Dr by simp
    then have "real_of_int q < real_of_int K" using that y by linarith
    then have "q + 1 \<le> K" by linarith
    then show ?thesis unfolding res by auto
  qed
qed

lemma p2_mult: "(2::real) powi a * 2 powi b = 2 powi (a + b)"
  by (simp add: power_int_add)

lemma rne_normal:
  fixes n d e :: int
  assumes n: "0 < n" and d: "0 < d"
    and lo: "- 1022 \<le> ilog2_ratio n d + e" and hi: "ilog2_ratio n d + e \<le> 1022"
  obtains M where "rne s n d e = F64 s M (ilog2_ratio n d + e - 52)"
    and "\<bar>real_of_int M - real_of_int n / real_of_int d * 2 powi (52 - ilog2_ratio n d)\<bar> \<le> 1 / 2"
    and "\<And>K. real_of_int K \<le> real_of_int n / real_of_int d * 2 powi (52 - ilog2_ratio n d) \<Longrightarrow> K \<le> M"
    and "\<And>K. real_of_int n / real_of_int d * 2 powi (52 - ilog2_ratio n d) \<le> real_of_int K \<Longrightarrow> M \<le> K"
    and "2 ^ 52 \<le> M" and "M \<le> 2 ^ 53"
proof -
  define k where "k = ilog2_ratio n d"
  define q where "q = k + e - 52"
  define y where "y = real_of_int n / real_of_int d * 2 powi (52 - k)"
  define N where "N = (if q \<le> e then n * 2 ^ nat (e - q) else n)"
  define D where "D = (if q \<le> e then d else d * 2 ^ nat (q - e))"
  define M where "M = round_half_even N D"
  have Dpos: "0 < D" using d by (simp add: D_def)
  have eq: "e - q = 52 - k" by (simp add: q_def)
  have ND: "real_of_int N / real_of_int D = y"
  proof (cases "q \<le> e")
    case True
    then have "(2::real) ^ nat (e - q) = 2 powi (e - q)" by (simp add: power_int_nonneg_exp)
    then show ?thesis using True by (simp add: N_def D_def y_def eq)
  next
    case False
    then have "e - q = - int (nat (q - e))" by simp
    then have "(2::real) powi (e - q) = 1 / 2 ^ nat (q - e)"
      by (metis power_int_minus_divide power_int_of_nat)
    then show ?thesis using False by (simp add: N_def D_def y_def eq [symmetric])
  qed
  note kb = ilog2_ratio_bounds [OF n d, folded k_def]
  have p: "0 < (2::real) powi (52 - k)" by simp
  have ylo: "2 ^ 52 \<le> y"
  proof -
    have "(2::real) powi k * 2 powi (52 - k) \<le> y"
      unfolding y_def by (rule mult_right_mono [OF kb(1)]) simp
    then show ?thesis by (simp add: p2_mult)
  qed
  have yhi: "y \<le> 2 ^ 53"
  proof -
    have "y \<le> (2::real) powi (k + 1) * 2 powi (52 - k)"
      unfolding y_def by (rule mult_right_mono [OF less_imp_le [OF kb(2)]]) simp
    then show ?thesis by (simp add: p2_mult)
  qed
  have rp1: "\<bar>real_of_int M - y\<bar> \<le> 1 / 2"
    using round_half_even_props(1) [OF Dpos, where N = N] by (simp only: ND M_def)
  have rp2: "K \<le> M" if "real_of_int K \<le> y" for K
    using round_half_even_props(2) [OF Dpos, where N = N and K = K] that by (simp only: ND M_def)
  have rp3: "M \<le> K" if "y \<le> real_of_int K" for K
    using round_half_even_props(3) [OF Dpos, where N = N and K = K] that by (simp only: ND M_def)
  have Mlo: "2 ^ 52 \<le> M" using rp2 [of "2 ^ 52"] ylo by simp
  have Mhi: "M \<le> 2 ^ 53" using rp3 [of "2 ^ 53"] yhi by simp
  have "M < 2 ^ nat 54" using Mhi by simp
  then have bl: "bitlen M \<le> 54" using bitlen_le_iff_power [of M 54] by simp
  have Mdef: "M = (if q \<le> e then round_half_even (n * 2 ^ nat (e - q)) d
                 else round_half_even n (d * 2 ^ nat (q - e)))"
    by (simp add: M_def N_def D_def)
  have mx: "max (k + e) (- 1022) = k + e" using lo by (simp add: k_def)
  have "rne s n d e = F64 s M q"
    using n bl hi unfolding rne_def Let_def k_def [symmetric] mx q_def [symmetric] Mdef [symmetric]
    by (simp add: q_def k_def)
  then show ?thesis
    using that [of M] rp1 rp2 rp3 Mlo Mhi unfolding y_def k_def q_def by simp
qed

lemma p2_less_iff: "(2::real) powi a < 2 powi b \<longleftrightarrow> a < b"
proof
  assume l: "(2::real) powi a < 2 powi b"
  show "a < b"
  proof (rule ccontr)
    assume "\<not> a < b"
    then have "b \<le> a" by simp
    then have "(2::real) powi b \<le> 2 powi a" by (intro power_int_increasing) simp_all
    with l show False by simp
  qed
next
  assume "a < b"
  then show "(2::real) powi a < 2 powi b" by (intro power_int_strict_increasing) simp_all
qed

lemma rne_round:
  fixes n d e :: int
  assumes n: "0 < n" and d: "0 < d"
    and lo: "2 powi a \<le> real_of_int n / real_of_int d * 2 powi e"
    and hi: "real_of_int n / real_of_int d * 2 powi e < 2 powi b"
    and a: "- 1022 \<le> a" and b: "b \<le> 1023"
  obtains M q where "rne s n d e = F64 s M q" and "0 < M"
    and "a \<le> q + 52" and "q + 52 < b"
    and "2 powi (q + 52) \<le> real_of_int n / real_of_int d * 2 powi e"
    and "\<bar>real_of_int M - real_of_int n / real_of_int d * 2 powi e * 2 powi (- q)\<bar> \<le> 1 / 2"
    and "\<And>K. real_of_int K \<le> real_of_int n / real_of_int d * 2 powi e * 2 powi (- q) \<Longrightarrow> K \<le> M"
    and "\<And>K. real_of_int n / real_of_int d * 2 powi e * 2 powi (- q) \<le> real_of_int K \<Longrightarrow> M \<le> K"
proof -
  define k where "k = ilog2_ratio n d"
  define x where "x = real_of_int n / real_of_int d * 2 powi e"
  note kb = ilog2_ratio_bounds [OF n d, folded k_def]
  have pe: "0 < (2::real) powi e" by simp
  have xlo: "2 powi (k + e) \<le> x"
  proof -
    have "(2::real) powi k * 2 powi e \<le> x"
      unfolding x_def by (rule mult_right_mono [OF kb(1)]) simp
    then show ?thesis by (simp add: p2_mult)
  qed
  have xhi: "x < 2 powi (k + e + 1)"
  proof -
    have "x < (2::real) powi (k + 1) * 2 powi e"
      unfolding x_def by (rule mult_strict_right_mono [OF kb(2) pe])
    moreover have "k + 1 + e = k + e + 1" by simp
    ultimately show ?thesis by (simp only: p2_mult)
  qed
  have "(2::real) powi a < 2 powi (k + e + 1)"
    using lo xhi unfolding x_def by (rule order_le_less_trans)
  then have A: "a \<le> k + e" using p2_less_iff [of a "k + e + 1"] by linarith
  have "(2::real) powi (k + e) < 2 powi b"
    using xlo hi unfolding x_def by (rule order_le_less_trans)
  then have B: "k + e < b" using p2_less_iff [of "k + e" b] by linarith
  have E1': "- 1022 \<le> ilog2_ratio n d + e" and E2': "ilog2_ratio n d + e \<le> 1022"
    using A B a b by (simp_all add: k_def)
  show thesis
  proof (rule rne_normal [OF n d E1' E2', of s])
    fix M
    assume M: "rne s n d e = F64 s M (ilog2_ratio n d + e - 52)"
      and err0: "\<bar>real_of_int M - real_of_int n / real_of_int d * 2 powi (52 - ilog2_ratio n d)\<bar> \<le> 1 / 2"
      and up0: "\<And>K. real_of_int K \<le> real_of_int n / real_of_int d * 2 powi (52 - ilog2_ratio n d) \<Longrightarrow> K \<le> M"
      and dn0: "\<And>K. real_of_int n / real_of_int d * 2 powi (52 - ilog2_ratio n d) \<le> real_of_int K \<Longrightarrow> M \<le> K"
      and Mlo: "2 ^ 52 \<le> M"
    define q where "q = k + e - 52"
    have "e + - q = 52 - k" by (simp add: q_def)
    then have "(2::real) powi e * 2 powi (- q) = 2 powi (52 - k)"
      by (simp only: p2_mult)
    then have yx: "real_of_int n / real_of_int d * 2 powi (52 - ilog2_ratio n d) = x * 2 powi (- q)"
      unfolding x_def k_def by (simp add: mult.assoc)
    have "(0::int) < 2 ^ 52" by simp
    then have Mpos: "0 < M" using Mlo by (rule less_le_trans)
    have M': "rne s n d e = F64 s M q" using M by (simp only: q_def k_def)
    have q52: "q + 52 = k + e" by (simp add: q_def)
    show thesis
    proof (rule that [OF M' Mpos])
      show "a \<le> q + 52" using A by (simp only: q52)
      show "q + 52 < b" using B by (simp only: q52)
      show "2 powi (q + 52) \<le> real_of_int n / real_of_int d * 2 powi e"
        using xlo by (simp only: q52 x_def)
      show "\<bar>real_of_int M - real_of_int n / real_of_int d * 2 powi e * 2 powi (- q)\<bar> \<le> 1 / 2"
        using err0 by (simp only: yx x_def)
      show "K \<le> M" if "real_of_int K \<le> real_of_int n / real_of_int d * 2 powi e * 2 powi (- q)" for K
        using up0 [of K] that by (simp only: yx x_def)
      show "M \<le> K" if "real_of_int n / real_of_int d * 2 powi e * 2 powi (- q) \<le> real_of_int K" for K
        using dn0 [of K] that by (simp only: yx x_def)
    qed
  qed
qed

lemma rne_rel:
  fixes n d e :: int
  assumes n: "0 < n" and d: "0 < d"
    and lo: "2 powi a \<le> real_of_int n / real_of_int d * 2 powi e"
    and hi: "real_of_int n / real_of_int d * 2 powi e < 2 powi b"
    and a: "- 1022 \<le> a" and b: "b \<le> 1023"
  obtains M q where "rne s n d e = F64 s M q" and "0 < M"
    and "\<bar>real_of_int M * 2 powi q - real_of_int n / real_of_int d * 2 powi e\<bar>
           \<le> real_of_int n / real_of_int d * 2 powi e / 2 ^ 53"
proof (rule rne_round [OF n d lo hi a b, of s])
  fix M q
  define x where "x = real_of_int n / real_of_int d * 2 powi e"
  assume M: "rne s n d e = F64 s M q" and Mpos: "0 < M"
    and xlo: "2 powi (q + 52) \<le> real_of_int n / real_of_int d * 2 powi e"
    and err: "\<bar>real_of_int M - real_of_int n / real_of_int d * 2 powi e * 2 powi (- q)\<bar> \<le> 1 / 2"
  have one: "(2::real) powi (- q) * 2 powi q = 1"
    by (simp only: p2_mult) simp
  have "real_of_int M * 2 powi q - x = (real_of_int M - x * 2 powi (- q)) * 2 powi q"
    using one by (simp add: left_diff_distrib mult.assoc)
  then have "\<bar>real_of_int M * 2 powi q - x\<bar> = \<bar>real_of_int M - x * 2 powi (- q)\<bar> * 2 powi q"
    by (simp add: abs_mult)
  also have "\<dots> \<le> 1 / 2 * 2 powi q"
    by (rule mult_right_mono [OF err [folded x_def]]) simp
  also have "\<dots> = 2 powi (q + 52) / 2 ^ 53"
  proof -
    have "(2::real) powi (q + 52) = 2 powi q * 2 powi 52"
      by (simp only: p2_mult)
    then show ?thesis by simp
  qed
  also have "\<dots> \<le> x / 2 ^ 53"
    using xlo [folded x_def] by (simp add: divide_right_mono)
  finally have e: "\<bar>real_of_int M * 2 powi q - x\<bar> \<le> x / 2 ^ 53" .
  show thesis
    by (rule that [OF M Mpos]) (use e in \<open>simp only: x_def\<close>)
qed

lemma rne_small_int:
  assumes "0 < n" "n < 2 ^ 53"
  shows "rne s n 1 0 = F64 s (n * 2 ^ nat (53 - bitlen n)) (bitlen n - 53)"
proof -
  have b: "2 ^ nat (bitlen n - 1) \<le> n" "n < 2 ^ nat (bitlen n)"
    using bitlen_bounds [OF assms(1)] by simp_all
  have p: "1 \<le> bitlen n" using assms bitlen_eq_zero_iff [of n] bitlen_nonneg [of n] by linarith
  have le: "bitlen n \<le> 53" using assms(2) bitlen_le_iff_power [of n 53] by simp
  have b1: "bitlen 1 = 1" by code_simp
  have k: "ilog2_ratio n 1 = bitlen n - 1"
    using b(1) p by (simp add: ilog2_ratio_def b1)
  have r1: "round_half_even N 1 = N" for N
    by (simp add: round_half_even_def)
  have bm: "bitlen (n * 2 ^ nat (53 - bitlen n)) = 53"
    using bitlen_pow2 [OF assms(1), of "nat (53 - bitlen n)"] le by simp
  have e: "nat (52 - (bitlen n - 1)) = nat (53 - bitlen n)" by simp
  show ?thesis
    using assms(1) p le
    by (simp add: rne_def k Let_def r1 bm e)
qed

lemma f64_of_int_small:
  assumes "0 < n" "n < 2 ^ 53"
  shows "f64_of_int n = F64 False (n * 2 ^ nat (53 - bitlen n)) (bitlen n - 53)"
  using rne_small_int [OF assms, of False] assms by (simp add: f64_of_int_def)

lemma small_int_scaled:
  assumes "0 < n" "n < 2 ^ 53"
  shows "real_of_int (n * 2 ^ nat (53 - bitlen n)) * 2 powi (bitlen n - 53) = real_of_int n"
proof -
  have le: "bitlen n \<le> 53" using assms(2) bitlen_le_iff_power [of n 53] by simp
  then have "(2::real) ^ nat (53 - bitlen n) = 2 powi (53 - bitlen n)"
    by (simp add: power_int_nonneg_exp)
  moreover have "(2::real) powi (53 - bitlen n) * 2 powi (bitlen n - 53) = 1"
    by (simp only: p2_mult) simp
  ultimately show ?thesis by (simp add: mult.assoc)
qed

lemma ceil_div_pow2:
  fixes M C P :: int
  assumes "0 < P" "(C - 1) * P < M" "M \<le> C * P"
  shows "(M + P - 1) div P = C"
proof (rule int_div_pos_eq)
  show "M + P - 1 = P * C + (M + P - 1 - C * P)" by (simp add: algebra_simps)
  show "0 \<le> M + P - 1 - C * P" using assms(2) by (simp add: algebra_simps)
  show "M + P - 1 - C * P < P" using assms(3) by (simp add: algebra_simps)
qed

lemma clientAmount_ceiling:
  assumes n: "1 \<le> n" "n < 2 ^ 53" and m: "1 \<le> m" "m < 2 ^ 53"
  shows "computeClientAmount oor (f64_of_int n) (f64_of_int m) = \<lceil>real_of_int n / real_of_int m\<rceil>"
proof -
  define N where "N = n * 2 ^ nat (53 - bitlen n)"
  define D where "D = m * 2 ^ nat (53 - bitlen m)"
  define e where "e = (bitlen n - 53) - (bitlen m - 53)"
  define x where "x = real_of_int n / real_of_int m"
  define C where "C = \<lceil>x\<rceil>"
  have n0: "0 < n" and m0: "0 < m" using n m by simp_all
  have fn: "f64_of_int n = F64 False N (bitlen n - 53)"
    unfolding N_def by (rule f64_of_int_small [OF n0 n(2)])
  have fm: "f64_of_int m = F64 False D (bitlen m - 53)"
    unfolding D_def by (rule f64_of_int_small [OF m0 m(2)])
  have Npos: "0 < N" and Dpos: "0 < D" using n0 m0 by (simp_all add: N_def D_def)
  have dv: "f64_div (f64_of_int n) (f64_of_int m) = rne False N D e"
    using Dpos by (simp add: fn fm e_def)
  have sN: "real_of_int N * 2 powi (bitlen n - 53) = real_of_int n"
    unfolding N_def by (rule small_int_scaled [OF n0 n(2)])
  have sD: "real_of_int D * 2 powi (bitlen m - 53) = real_of_int m"
    unfolding D_def by (rule small_int_scaled [OF m0 m(2)])
  have xe: "real_of_int N / real_of_int D * 2 powi e = x"
  proof -
    have "(2::real) powi e = 2 powi (bitlen n - 53) / 2 powi (bitlen m - 53)"
      unfolding e_def by (simp only: p2_div)
    then have "real_of_int N / real_of_int D * 2 powi e =
          (real_of_int N * 2 powi (bitlen n - 53)) / (real_of_int D * 2 powi (bitlen m - 53))"
      by simp
    then show ?thesis by (simp only: sN sD x_def)
  qed
  have rn: "1 \<le> real_of_int n" "real_of_int n < 2 ^ 53"
    using n by (simp_all add: less_int_code) 
  have rm: "1 \<le> real_of_int m" "real_of_int m < 2 ^ 53"
    using m by (simp_all add: less_int_code)
  have xlo: "2 powi (- 53) \<le> real_of_int N / real_of_int D * 2 powi e"
  proof -
    have "1 / 2 ^ 53 \<le> 1 / real_of_int m"
      using rm by (intro divide_left_mono) simp_all
    also have "\<dots> \<le> x"
      unfolding x_def using rn rm by (intro divide_right_mono) simp_all
    finally have "1 / 2 ^ 53 \<le> x" .
    moreover have "(2::real) powi (- 53) = 1 / 2 ^ 53"
      by (simp add: power_int_minus_divide)
    ultimately show ?thesis by (simp only: xe)
  qed
  have xhi: "real_of_int N / real_of_int D * 2 powi e < 2 powi 53"
  proof -
    have "x \<le> real_of_int n / 1"
      unfolding x_def using rn rm by (intro divide_left_mono) simp_all
    then have "x < 2 ^ 53" using rn by simp
    moreover have "(2::real) powi 53 = 2 ^ 53" by simp
    ultimately show ?thesis by (simp only: xe)
  qed
  have Cx: "real_of_int C - 1 < x" "x \<le> real_of_int C"
    unfolding C_def by linarith+
  have gap: "real_of_int (C - 1) + 1 / real_of_int m \<le> x"
  proof -
    have "real_of_int (C - 1) * real_of_int m < real_of_int n"
      using Cx(1) rm unfolding x_def by (simp add: pos_less_divide_eq)
    then have "(C - 1) * m < n" by (metis of_int_less_iff of_int_mult)
    then have "(C - 1) * m + 1 \<le> n" by simp
    then have "real_of_int ((C - 1) * m + 1) \<le> real_of_int n" by (simp only: of_int_le_iff)
    then have "(real_of_int (C - 1) * real_of_int m + 1) / real_of_int m \<le> x"
      unfolding x_def using rm by (intro divide_right_mono) simp_all
    moreover have "(real_of_int (C - 1) * real_of_int m + 1) / real_of_int m =
        real_of_int (C - 1) + 1 / real_of_int m"
      using rm by (simp add: field_simps)
    ultimately show ?thesis by simp
  qed
  have Cn: "1 \<le> C" "C \<le> n"
  proof -
    have "0 < x" unfolding x_def using rn rm by simp
    then show "1 \<le> C" unfolding C_def by linarith
    have "x \<le> real_of_int n / 1"
      unfolding x_def using rn rm by (intro divide_left_mono) simp_all
    then show "C \<le> n" unfolding C_def by (simp add: ceiling_le_iff)
  qed
  have a53: "(- 1022 :: int) \<le> - 53" and b53: "(53 :: int) \<le> 1023" by simp_all
  have "int64_of_f64 oor (f64_ceil (rne False N D e)) = C"
  proof (rule rne_round [OF Npos Dpos xlo xhi a53 b53, of False])
    fix M q
    assume M: "rne False N D e = F64 False M q"
      and qb: "q + 52 < 53"
      and lo: "2 powi (q + 52) \<le> real_of_int N / real_of_int D * 2 powi e"
      and err: "\<bar>real_of_int M - real_of_int N / real_of_int D * 2 powi e * 2 powi (- q)\<bar> \<le> 1 / 2"
      and dn: "\<And>K. real_of_int N / real_of_int D * 2 powi e * 2 powi (- q) \<le> real_of_int K \<Longrightarrow> M \<le> K"
    define P :: int where "P = 2 ^ nat (- q)"
    have q0: "q \<le> 0" using qb by simp
    have Ppos: "0 < P" by (simp add: P_def)
    have rP: "real_of_int P = 2 powi (- q)"
      using q0 by (simp add: P_def power_int_nonneg_exp)
    have rPpos: "0 < real_of_int P" using Ppos by simp
    have y: "real_of_int N / real_of_int D * 2 powi e * 2 powi (- q) = x * real_of_int P"
      by (simp only: xe rP)
    have "x * real_of_int P \<le> real_of_int C * real_of_int P"
      using Cx(2) rPpos by (simp add: mult_right_mono)
    then have "x * real_of_int P \<le> real_of_int (C * P)" by simp
    then have up: "M \<le> C * P" using dn [of "C * P"] by (simp only: y)
    have "(2::real) powi (q + 52) = 2 ^ 52 / real_of_int P"
    proof -
      have "52 - (- q) = q + 52" by simp
      then have "(2::real) powi (q + 52) = 2 powi 52 / 2 powi (- q)"
        by (simp only: p2_div)
      then show ?thesis by (simp add: rP)
    qed
    then have "2 ^ 52 / real_of_int P \<le> x" using lo by (simp only: xe)
    then have "2 ^ 52 \<le> x * real_of_int P"
      using rPpos by (simp add: pos_divide_le_eq)
    also have "\<dots> = real_of_int n * (real_of_int P / real_of_int m)"
      by (simp add: x_def)
    also have "\<dots> < 2 ^ 53 * (real_of_int P / real_of_int m)"
      using rn rm rPpos by (intro mult_strict_right_mono) simp_all
    finally have Pm: "1 / 2 < real_of_int P / real_of_int m" by simp
    have "real_of_int (C - 1) * real_of_int P + real_of_int P / real_of_int m
          = (real_of_int (C - 1) + 1 / real_of_int m) * real_of_int P"
      by (simp add: algebra_simps)
    also have "\<dots> \<le> x * real_of_int P"
      using gap rPpos by (simp add: mult_right_mono)
    finally have "real_of_int (C - 1) * real_of_int P + 1 / 2 < x * real_of_int P"
      using Pm by linarith
    moreover have "x * real_of_int P - 1 / 2 \<le> real_of_int M"
      using err unfolding y by linarith
    ultimately have "real_of_int ((C - 1) * P) < real_of_int M" by simp
    then have lo': "(C - 1) * P < M" by (simp only: of_int_less_iff)
    have cl: "f64_ceil (F64 False M q) = F64 False C 0"
    proof (cases "q = 0")
      case True
      then have "P = 1" by (simp add: P_def)
      then have "M = C" using lo' up by simp
      then show ?thesis using True by simp
    next
      case False
      then have "q < 0" using q0 by simp
      moreover have "(M + P - 1) div P = C"
        by (rule ceil_div_pow2 [OF Ppos lo' up])
      ultimately show ?thesis by (simp add: P_def)
    qed
    have "- (2 ^ 63) \<le> C" "C < 2 ^ 63" using Cn n by simp_all
    then show ?thesis
      unfolding M cl by (simp add: int64_of_f64_def)
  qed
  then show ?thesis by (simp add: computeClientAmount_def dv x_def C_def)
qed

lemma f64_trunc_floor:
  assumes "0 \<le> M"
  shows "f64_trunc (F64 False M q) = Some \<lfloor>real_of_int M * 2 powi q\<rfloor>"
proof (cases "0 \<le> q")
  case True
  then have "real_of_int M * 2 powi q = real_of_int (M * 2 ^ nat q)"
    by (simp add: power_int_nonneg_exp)
  then have "\<lfloor>real_of_int M * 2 powi q\<rfloor> = M * 2 ^ nat q"
    by (simp only: floor_of_int)
  then show ?thesis using True by simp
next
  case False
  then have "q = - int (nat (- q))" by simp
  then have "(2::real) powi q = 1 / 2 ^ nat (- q)"
    by (metis power_int_minus_divide power_int_of_nat)
  then have "real_of_int M * 2 powi q = real_of_int M / real_of_int (2 ^ nat (- q))"
    by simp
  then have "\<lfloor>real_of_int M * 2 powi q\<rfloor> = M div 2 ^ nat (- q)"
    by (simp only: floor_divide_of_int_eq)
  then show ?thesis using False by simp
qed

text \<open>Interval bookkeeping: a value within the factors lo and hi of a positive x.\<close>

lemma rounded_within:
  fixes x y v lo hi u :: real
  assumes x: "0 < x" and y: "x * lo \<le> y" "y \<le> x * hi" and lo: "0 < lo"
    and u: "0 \<le> u" "u \<le> 1"
    and err: "\<bar>v - y\<bar> \<le> y * u"
  shows "x * (lo * (1 - u)) \<le> v" and "v \<le> x * (hi * (1 + u))"
proof -
  have e1: "v - y \<le> y * u" by (rule abs_le_D1 [OF err])
  have e2: "- (v - y) \<le> y * u" by (rule abs_le_D2 [OF err])
  have d1: "y * (1 - u) = y - y * u" by (simp add: right_diff_distrib)
  have d2: "y * (1 + u) = y + y * u" by (simp add: distrib_left)
  have "y * (1 - u) \<le> v" unfolding d1 using e2 by linarith
  moreover have "x * lo * (1 - u) \<le> y * (1 - u)"
    using y(1) u by (intro mult_right_mono) simp_all
  ultimately show "x * (lo * (1 - u)) \<le> v" by (simp add: mult.assoc)
  have "v \<le> y * (1 + u)" unfolding d2 using e1 by linarith
  moreover have "y * (1 + u) \<le> x * hi * (1 + u)"
    using y(2) u by (intro mult_right_mono) simp_all
  ultimately show "v \<le> x * (hi * (1 + u))" by (simp add: mult.assoc)
qed

lemma div_within:
  fixes x1 x2 v1 v2 l1 h1 l2 h2 :: real
  assumes "0 < x1" "0 < x2" "0 < l1" "0 < l2"
    and "x1 * l1 \<le> v1" "v1 \<le> x1 * h1" "x2 * l2 \<le> v2" "v2 \<le> x2 * h2"
  shows "x1 / x2 * (l1 / h2) \<le> v1 / v2" and "v1 / v2 \<le> x1 / x2 * (h1 / l2)"
proof -
  have "0 < x1 * l1" "0 < x2 * l2" using assms by simp_all
  then have v1: "0 < v1" and v2: "0 < v2" using assms by linarith+
  have "0 < x2 * h2" "0 < x1 * h1" using assms v1 v2 by linarith+
  then have h2: "0 < h2" and h1: "0 < h1"
    using assms by (simp_all add: zero_less_mult_iff)
  have "x1 * l1 / (x2 * h2) \<le> v1 / (x2 * h2)"
    using assms h2 by (intro divide_right_mono) simp_all
  also have "\<dots> \<le> v1 / v2"
    using assms v1 v2 by (intro divide_left_mono) simp_all
  finally show "x1 / x2 * (l1 / h2) \<le> v1 / v2" by simp
  have "v1 / v2 \<le> v1 / (x2 * l2)"
    using assms v1 v2 by (intro divide_left_mono) simp_all
  also have "\<dots> \<le> x1 * h1 / (x2 * l2)"
    using assms by (intro divide_right_mono) simp_all
  finally show "v1 / v2 \<le> x1 / x2 * (h1 / l2)" by simp
qed

lemma within_weaken:
  fixes x v lo hi lo' hi' :: real
  assumes "0 < x" "x * lo \<le> v" "v \<le> x * hi" "lo' \<le> lo" "hi \<le> hi'"
  shows "x * lo' \<le> v" and "v \<le> x * hi'"
proof -
  have "x * lo' \<le> x * lo" using assms by (intro mult_left_mono) simp_all
  then show "x * lo' \<le> v" using assms by linarith
  have "x * hi \<le> x * hi'" using assms by (intro mult_left_mono) simp_all
  then show "v \<le> x * hi'" using assms by linarith
qed

lemma rne_within:
  fixes n d e :: int and x y lo hi :: real
  assumes n: "0 < n" and d: "0 < d"
    and yeq: "real_of_int n / real_of_int d * 2 powi e = y"
    and x: "0 < x" and yb: "x * lo \<le> y" "y \<le> x * hi" and lo: "0 < lo"
    and range: "2 powi a \<le> y" "y < 2 powi b" "- 1022 \<le> a" "b \<le> 1023"
  obtains M q where "rne s n d e = F64 s M q" and "0 < M"
    and "x * (lo * (1 - 1 / 2 ^ 53)) \<le> real_of_int M * 2 powi q"
    and "real_of_int M * 2 powi q \<le> x * (hi * (1 + 1 / 2 ^ 53))"
proof (rule rne_rel [OF n d range(1) [folded yeq] range(2) [folded yeq] range(3) range(4), of s])
  fix M q
  assume M: "rne s n d e = F64 s M q" and Mpos: "0 < M"
    and err: "\<bar>real_of_int M * 2 powi q - real_of_int n / real_of_int d * 2 powi e\<bar>
           \<le> real_of_int n / real_of_int d * 2 powi e / 2 ^ 53"
  have err': "\<bar>real_of_int M * 2 powi q - y\<bar> \<le> y * (1 / 2 ^ 53)"
    using err unfolding yeq by simp
  have u: "0 \<le> (1::real) / 2 ^ 53" "(1::real) / 2 ^ 53 \<le> 1" by simp_all
  show thesis
    by (rule that [OF M Mpos rounded_within(1) [OF x yb lo u err'] rounded_within(2) [OF x yb lo u err']])
qed

lemma one_f64: "rne False 1 1 0 = F64 False (2 ^ 52) (- 52)"
  by code_simp

lemma e9_f64: "rne False 1000000000 1 0 = F64 False (1000000000 * 2 ^ 23) (- 23)"
  by code_simp

lemma range_from_within:
  fixes x y lo hi :: real
  assumes "x * lo \<le> y" "y \<le> x * hi" "2 powi a \<le> x" "x < 2 powi b" "1 / 2 \<le> lo" "hi \<le> 2"
  shows "2 powi (a - 1) \<le> y" and "y < 2 powi (b + 1)"
proof -
  have xpos: "0 < x" using assms(3) by (rule less_le_trans [OF zero_less_power_int, rotated]) simp
  have "(2::real) powi (a - 1) = 2 powi a * (1 / 2)"
    using p2_div [of a 1] by simp
  also have "\<dots> \<le> x * lo"
    using assms(3,5) xpos by (intro mult_mono) simp_all
  finally show "2 powi (a - 1) \<le> y" using assms(1) by linarith
  have "x * hi \<le> x * 2" using assms(6) xpos by (intro mult_left_mono) simp_all
  also have "\<dots> < 2 powi b * 2" using assms(4) by simp
  also have "\<dots> = 2 powi (b + 1)" using p2_mult [of b 1] by simp
  finally show "y < 2 powi (b + 1)" using assms(2) by linarith
qed

lemma f64_of_int_pos:
  assumes "0 < n"
  shows "f64_of_int n = rne False n 1 0"
  using assms by (simp add: f64_of_int_def)

lemma int_range_real:
  fixes n :: int
  assumes "0 < n" "n < 2 ^ k"
  shows "2 powi 0 \<le> real_of_int n" and "real_of_int n < 2 powi (int k)"
proof -
  show "2 powi 0 \<le> real_of_int n" using assms(1) by simp
  have "real_of_int n < real_of_int (2 ^ k)" using assms(2) by (simp only: of_int_less_iff)
  then show "real_of_int n < 2 powi (int k)" by simp
qed

lemma ticker_chain:
  fixes R w :: int
  assumes R: "0 < R" "R < 2 ^ 64" and w: "0 < w" "w < 2 ^ 63"
  obtains M q where
    "f64_mul (f64_div (rne False 1 1 0) (f64_div (f64_of_int R) (f64_of_int w)))
       (rne False 1000000000 1 0) = F64 False M q"
    and "0 < M"
    and "real_of_int w * 10 ^ 9 / real_of_int R * (1 - 1 / 2 ^ 50) \<le> real_of_int M * 2 powi q"
    and "real_of_int M * 2 powi q \<le> real_of_int w * 10 ^ 9 / real_of_int R * (1 + 1 / 2 ^ 50)"
proof -
  have rR: "0 < real_of_int R" and rw: "0 < real_of_int w" using R w by simp_all
  have one: "(0::int) < 1" by simp
  have lo1: "(0::real) < 1" by simp
  have m0: "(- 1022 :: int) \<le> 0" and b64: "int 64 \<le> 1023" and b63: "int 63 \<le> 1023" by simp_all
  have yR: "real_of_int R / real_of_int 1 * 2 powi 0 = real_of_int R" by simp
  have yw: "real_of_int w / real_of_int 1 * 2 powi 0 = real_of_int w" by simp
  have idR: "real_of_int R * 1 \<le> real_of_int R" "real_of_int R \<le> real_of_int R * 1" by simp_all
  have idw: "real_of_int w * 1 \<le> real_of_int w" "real_of_int w \<le> real_of_int w * 1" by simp_all
  obtain Ma qa where a: "rne False R 1 0 = F64 False Ma qa" "0 < Ma"
      "real_of_int R * (1 * (1 - 1 / 2 ^ 53)) \<le> real_of_int Ma * 2 powi qa"
      "real_of_int Ma * 2 powi qa \<le> real_of_int R * (1 * (1 + 1 / 2 ^ 53))"
    by (rule rne_within [OF R(1) one yR rR idR lo1 int_range_real [OF R] m0 b64, of False])
  obtain Mb qb where b: "rne False w 1 0 = F64 False Mb qb" "0 < Mb"
      "real_of_int w * (1 * (1 - 1 / 2 ^ 53)) \<le> real_of_int Mb * 2 powi qb"
      "real_of_int Mb * 2 powi qb \<le> real_of_int w * (1 * (1 + 1 / 2 ^ 53))"
    by (rule rne_within [OF w(1) one yw rw idw lo1 int_range_real [OF w] m0 b63, of False])
  define va where "va = real_of_int Ma * 2 powi qa"
  define vb where "vb = real_of_int Mb * 2 powi qb"
  define xc where "xc = real_of_int R / real_of_int w"
  have xcpos: "0 < xc" using rR rw by (simp add: xc_def)
  have la: "(0::real) < 1 * (1 - 1 / 2 ^ 53)" by simp
  have dc: "f64_div (F64 False Ma qa) (F64 False Mb qb) = rne False Ma Mb (qa - qb)"
    using b(2) by simp
  have yc: "real_of_int Ma / real_of_int Mb * 2 powi (qa - qb) = va / vb"
    unfolding va_def vb_def by (simp add: p2_div [symmetric])
  note cb = div_within [OF rR rw la la a(3,4) [folded va_def] b(3,4) [folded vb_def], folded xc_def]
  have xcr: "2 powi (- 63) \<le> xc" "xc < 2 powi 64"
  proof -
    have "real_of_int w < 2 ^ 63" using int_range_real(2) [OF w] by simp
    then have "1 / 2 ^ 63 \<le> 1 / real_of_int w" using rw by (intro divide_left_mono) simp_all
    also have "\<dots> \<le> xc"
      unfolding xc_def using R(1) rw by (intro divide_right_mono) simp_all
    finally show "2 powi (- 63) \<le> xc" by (simp add: power_int_minus_divide)
    have "xc \<le> real_of_int R / 1"
      unfolding xc_def using w(1) rR by (intro divide_left_mono) simp_all
    also have "\<dots> < 2 ^ 64" using int_range_real(2) [OF R] by simp
    finally show "xc < 2 powi 64" by simp
  qed
  have nc: "(1::real) / 2 \<le> 1 * (1 - 1 / 2 ^ 53) / (1 * (1 + 1 / 2 ^ 53))"
      "(1::real) * (1 + 1 / 2 ^ 53) / (1 * (1 - 1 / 2 ^ 53)) \<le> 2"
      "(0::real) < 1 * (1 - 1 / 2 ^ 53) / (1 * (1 + 1 / 2 ^ 53))"
    by simp_all
  have m64: "(- 1022 :: int) \<le> - 63 - 1" and b65: "(64 :: int) + 1 \<le> 1023" by simp_all
  obtain Mc qc where c: "rne False Ma Mb (qa - qb) = F64 False Mc qc" "0 < Mc"
      "xc * (1 * (1 - 1 / 2 ^ 53) / (1 * (1 + 1 / 2 ^ 53)) * (1 - 1 / 2 ^ 53)) \<le> real_of_int Mc * 2 powi qc"
      "real_of_int Mc * 2 powi qc \<le> xc * (1 * (1 + 1 / 2 ^ 53) / (1 * (1 - 1 / 2 ^ 53)) * (1 + 1 / 2 ^ 53))"
    by (rule rne_within [OF a(2) b(2) yc xcpos cb nc(3)
          range_from_within [OF cb xcr nc(1,2)] m64 b65, of False])
  define vc where "vc = real_of_int Mc * 2 powi qc"
  have wc: "(1::real) - 1 / 2 ^ 51 \<le> 1 * (1 - 1 / 2 ^ 53) / (1 * (1 + 1 / 2 ^ 53)) * (1 - 1 / 2 ^ 53)"
      "(1::real) * (1 + 1 / 2 ^ 53) / (1 * (1 - 1 / 2 ^ 53)) * (1 + 1 / 2 ^ 53) \<le> 1 + 1 / 2 ^ 51"
    by simp_all
  note c' = within_weaken [OF xcpos c(3,4) [folded vc_def] wc]
  define xd where "xd = 1 / xc"
  have xdpos: "0 < xd" using xcpos by (simp add: xd_def)
  have p52: "(0::int) < 2 ^ 52" by simp
  have lc: "(0::real) < 1 - 1 / 2 ^ 51" by simp
  have dd: "f64_div (F64 False (2 ^ 52) (- 52)) (F64 False Mc qc) = rne False (2 ^ 52) Mc (- 52 - qc)"
    using c(2) by simp
  have yd: "real_of_int (2 ^ 52) / real_of_int Mc * 2 powi (- 52 - qc) = 1 / vc"
  proof -
    have "(2::real) powi (- 52 - qc) = 2 powi (- 52) / 2 powi qc" by (simp only: p2_div)
    then show ?thesis unfolding vc_def by (simp add: power_int_minus_divide)
  qed
  have id1: "(1::real) * 1 \<le> 1" "(1::real) \<le> 1 * 1" by simp_all
  have z1: "(0::real) < 1" by simp
  note db = div_within [OF z1 xcpos z1 lc id1 c', folded xd_def]
  have xdr: "2 powi (- 64) \<le> xd" "xd < 2 powi 64"
  proof -
    have "xc \<le> 2 ^ 64" using xcr(2) by simp
    then have "1 / 2 ^ 64 \<le> 1 / xc" using xcpos by (intro divide_left_mono) simp_all
    then show "2 powi (- 64) \<le> xd" by (simp add: xd_def power_int_minus_divide)
    have "1 / 2 ^ 63 \<le> xc" using xcr(1) by (simp add: power_int_minus_divide)
    then have "1 / xc \<le> 1 / (1 / 2 ^ 63)" using xcpos by (intro divide_left_mono) simp_all
    then have "xd \<le> 2 ^ 63" by (simp add: xd_def)
    also have "\<dots> < (2::real) ^ 64" by simp
    finally show "xd < 2 powi 64" by simp
  qed
  have nd: "(1::real) / 2 \<le> 1 / (1 + 1 / 2 ^ 51)" "(1::real) / (1 - 1 / 2 ^ 51) \<le> 2"
      "(0::real) < 1 / (1 + 1 / 2 ^ 51)"
    by simp_all
  have m65: "(- 1022 :: int) \<le> - 64 - 1" by simp
  obtain Md qd where d: "rne False (2 ^ 52) Mc (- 52 - qc) = F64 False Md qd" "0 < Md"
      "xd * (1 / (1 + 1 / 2 ^ 51) * (1 - 1 / 2 ^ 53)) \<le> real_of_int Md * 2 powi qd"
      "real_of_int Md * 2 powi qd \<le> xd * (1 / (1 - 1 / 2 ^ 51) * (1 + 1 / 2 ^ 53))"
    by (rule rne_within [OF p52 c(2) yd xdpos db nd(3)
          range_from_within [OF db xdr nd(1,2)] m65 b65, of False])
  define vd where "vd = real_of_int Md * 2 powi qd"
  have wd: "(1::real) - 3 / 2 ^ 52 \<le> 1 / (1 + 1 / 2 ^ 51) * (1 - 1 / 2 ^ 53)"
      "(1::real) / (1 - 1 / 2 ^ 51) * (1 + 1 / 2 ^ 53) \<le> 1 + 3 / 2 ^ 52"
    by simp_all
  note d' = within_weaken [OF xdpos d(3,4) [folded vd_def] wd]
  define xg where "xg = xd * 10 ^ 9"
  have xgpos: "0 < xg" using xdpos by (simp add: xg_def)
  have e9pos: "(0::int) < 1000000000 * 2 ^ 23" by simp
  have Mg0: "0 < Md * (1000000000 * 2 ^ 23)" using d(2) by simp
  have dg: "f64_mul (F64 False Md qd) (F64 False (1000000000 * 2 ^ 23) (- 23)) =
      rne False (Md * (1000000000 * 2 ^ 23)) 1 (qd + - 23)"
    by simp
  have yg: "real_of_int (Md * (1000000000 * 2 ^ 23)) / real_of_int 1 * 2 powi (qd + - 23) = vd * 10 ^ 9"
  proof -
    have "(2::real) powi (qd + - 23) = 2 powi qd * 2 powi (- 23)" by (simp only: p2_mult)
    then show ?thesis unfolding vd_def by (simp add: power_int_minus_divide)
  qed
  have gb: "xg * (1 - 3 / 2 ^ 52) \<le> vd * 10 ^ 9" "vd * 10 ^ 9 \<le> xg * (1 + 3 / 2 ^ 52)"
  proof -
    have "xd * (1 - 3 / 2 ^ 52) * 10 ^ 9 \<le> vd * 10 ^ 9"
      using d'(1) by (intro mult_right_mono) simp_all
    then show "xg * (1 - 3 / 2 ^ 52) \<le> vd * 10 ^ 9" by (simp add: xg_def mult.assoc mult.commute)
    have "vd * 10 ^ 9 \<le> xd * (1 + 3 / 2 ^ 52) * 10 ^ 9"
      using d'(2) by (intro mult_right_mono) simp_all
    then show "vd * 10 ^ 9 \<le> xg * (1 + 3 / 2 ^ 52)" by (simp add: xg_def mult.assoc mult.commute)
  qed
  have xgr: "2 powi (- 35) \<le> xg" "xg < 2 powi 94"
  proof -
    have "(2::real) powi (- 35) = 2 powi (- 64) * 2 ^ 29"
      using p2_mult [of "- 64" 29] by simp
    also have "\<dots> \<le> xd * 10 ^ 9"
      using xdr(1) xdpos by (intro mult_mono) simp_all
    finally show "2 powi (- 35) \<le> xg" by (simp add: xg_def)
    have "xd * 10 ^ 9 < 2 powi 64 * 2 ^ 30"
      using xdr(2) xdpos by (intro mult_strict_mono) simp_all
    also have "\<dots> = 2 powi 94" using p2_mult [of 64 30] by simp
    finally show "xg < 2 powi 94" by (simp add: xg_def)
  qed
  have ng: "(1::real) / 2 \<le> 1 - 3 / 2 ^ 52" "(1::real) + 3 / 2 ^ 52 \<le> 2" "(0::real) < 1 - 3 / 2 ^ 52"
    by simp_all
  have m36: "(- 1022 :: int) \<le> - 35 - 1" and b95: "(94 :: int) + 1 \<le> 1023" by simp_all
  obtain Mg qg where g: "rne False (Md * (1000000000 * 2 ^ 23)) 1 (qd + - 23) = F64 False Mg qg" "0 < Mg"
      "xg * ((1 - 3 / 2 ^ 52) * (1 - 1 / 2 ^ 53)) \<le> real_of_int Mg * 2 powi qg"
      "real_of_int Mg * 2 powi qg \<le> xg * ((1 + 3 / 2 ^ 52) * (1 + 1 / 2 ^ 53))"
    by (rule rne_within [OF Mg0 one yg xgpos gb ng(3)
          range_from_within [OF gb xgr ng(1,2)] m36 b95, of False])
  have wg: "(1::real) - 1 / 2 ^ 50 \<le> (1 - 3 / 2 ^ 52) * (1 - 1 / 2 ^ 53)"
      "((1::real) + 3 / 2 ^ 52) * (1 + 1 / 2 ^ 53) \<le> 1 + 1 / 2 ^ 50"
    by simp_all
  note g' = within_weaken [OF xgpos g(3,4) wg]
  have xgX: "xg = real_of_int w * 10 ^ 9 / real_of_int R"
    by (simp add: xg_def xd_def xc_def)
  have "f64_mul (f64_div (rne False 1 1 0) (f64_div (f64_of_int R) (f64_of_int w)))
       (rne False 1000000000 1 0) = F64 False Mg qg"
    unfolding f64_of_int_pos [OF R(1)] f64_of_int_pos [OF w(1)] a(1) b(1) dc c(1) one_f64 dd d(1)
      e9_f64 dg g(1) by (rule refl)
  then show ?thesis
    using g(2) g' unfolding xgX by (rule that)
qed


section \<open>Properties of the pacing functions\<close>

lemma ProducerPerWorker_five: "ProducerPerWorker = f64_of_int 5"
  by (simp add: ProducerPerWorker_def f64_of_int_def)

lemma rne_zero: "rne s 0 d e = F64 s 0 0"
  by (simp add: rne_def)

lemma f64_of_int_zero: "f64_of_int 0 = F64 False 0 0"
  by (simp add: f64_of_int_def rne_zero)

lemma f64_of_int_finite:
  assumes "n \<noteq> 0" "\<bar>n\<bar> < 2 ^ 64"
  obtains M q where "f64_of_int n = F64 (n < 0) M q" and "0 < M"
proof -
  have n: "0 < \<bar>n\<bar>" using assms(1) by simp
  have one: "(0::int) < 1" by simp
  have m0: "(- 1022 :: int) \<le> 0" and b64: "int 64 \<le> 1023" by simp_all
  have lo: "2 powi 0 \<le> real_of_int \<bar>n\<bar> / real_of_int 1 * 2 powi 0"
    using int_range_real(1) [OF n assms(2)] by simp
  have hi: "real_of_int \<bar>n\<bar> / real_of_int 1 * 2 powi 0 < 2 powi (int 64)"
    using int_range_real(2) [OF n assms(2)] by simp
  show thesis
  proof (rule rne_rel [OF n one lo hi m0 b64, of "n < 0"])
    fix M q
    assume "rne (n < 0) \<bar>n\<bar> 1 0 = F64 (n < 0) M q" "0 < M"
    then show thesis using that by (simp add: f64_of_int_def)
  qed
qed

text \<open>
  Claim C2, as the program has it. \<^verbatim>\<open>computeTickerInterval\<close> validates nothing and
  has no error result; it returns an interval for every input. With no workers and a
  positive rate the rate per worker is infinite and the interval is 0. With rate 0 the
  rate per worker is a zero, its inverse an infinity (NaN when the worker count is 0 as
  well), and the interval is what the platform's conversion to \<^verbatim>\<open>int64\<close> gives for
  that value. \<^verbatim>\<open>KafkaProducer\<close> stores the interval as it is; an interval that is not
  positive makes \<^verbatim>\<open>time.NewTicker\<close> panic when a worker enters
  \<^verbatim>\<open>startSchedule\<close>.
\<close>

theorem computeTickerInterval_no_validation:
  "(0 < uint r \<longrightarrow> computeTickerInterval oor r 0 = 0)
   \<and> (0 < w \<and> w < 2 ^ 63 \<longrightarrow> computeTickerInterval oor 0 w = oor (F64Inf False))
   \<and> (w < 0 \<and> - (2 ^ 63) \<le> w \<longrightarrow> computeTickerInterval oor 0 w = oor (F64Inf True))
   \<and> computeTickerInterval oor 0 0 = oor F64NaN
   \<and> (interval k \<le> 0 \<longrightarrow> startSchedule build enc k inps mt = Inl NonPositiveTickerInterval)"
proof -
  have a: "computeTickerInterval oor r 0 = 0" if "0 < uint r"
  proof -
    have "uint r \<noteq> 0" "\<bar>uint r\<bar> < 2 ^ 64" using that uint_lt2p [of r] by simp_all
    then obtain M q where "f64_of_int (uint r) = F64 (uint r < 0) M q" "0 < M"
      by (rule f64_of_int_finite)
    then show ?thesis
      by (simp add: computeTickerInterval_def f64_of_int_zero one_f64 e9_f64 rne_zero int64_of_f64_def)
  qed
  have b: "computeTickerInterval oor 0 w = oor (F64Inf (w < 0))"
    if w0: "w \<noteq> 0" and wb: "\<bar>w\<bar> < 2 ^ 64" for w
  proof -
    obtain M q where "f64_of_int w = F64 (w < 0) M q" "0 < M"
      using w0 wb by (rule f64_of_int_finite)
    then show ?thesis
      by (simp add: computeTickerInterval_def f64_of_int_zero one_f64 e9_f64 rne_zero int64_of_f64_def)
  qed
  have c: "computeTickerInterval oor 0 0 = oor F64NaN"
    by (simp add: computeTickerInterval_def f64_of_int_zero one_f64 e9_f64 int64_of_f64_def)
  show ?thesis
  proof (intro conjI impI)
    show "computeTickerInterval oor r 0 = 0" if "0 < uint r" using that by (rule a)
    show "computeTickerInterval oor 0 w = oor (F64Inf False)" if "0 < w \<and> w < 2 ^ 63"
      using b [of w] that by simp
    show "computeTickerInterval oor 0 w = oor (F64Inf True)" if "w < 0 \<and> - (2 ^ 63) \<le> w"
      using b [of w] that by simp
    show "computeTickerInterval oor 0 0 = oor F64NaN" by (rule c)
    show "startSchedule build enc k inps mt = Inl NonPositiveTickerInterval" if "interval k \<le> 0"
      using that by (simp add: startSchedule_def)
  qed
qed

text \<open>
  Rate 1000 with no workers; rate 0 with 12 workers; a worker started on the interval the
  second gives on amd64.
\<close>

theorem computeTickerInterval_no_validation_witness:
  "0 < uint (1000 :: 64 word) \<and> computeTickerInterval amd64_oor 1000 0 = 0
   \<and> (0::int) < 12 \<and> (12::int) < 2 ^ 63
   \<and> computeTickerInterval amd64_oor 0 12 = amd64_oor (F64Inf False)
   \<and> interval \<lparr>input = example_config\<lparr>msgRate := 0\<rparr>, clients = [Some (0::nat)], wg = 0,
                 stop = \<lparr>capacity = 2, buffered = []\<rparr>, metrics = initMetrics,
                 interval = - 9223372036854775808\<rparr> \<le> 0
   \<and> startSchedule envelope plain_enc
         \<lparr>input = example_config\<lparr>msgRate := 0\<rparr>, clients = [Some (0::nat)], wg = 0,
          stop = \<lparr>capacity = 2, buffered = []\<rparr>, metrics = initMetrics,
          interval = - 9223372036854775808\<rparr> six_ticks initMetrics
       = Inl NonPositiveTickerInterval"
  using computeTickerInterval_no_validation [of 1000 amd64_oor 12
      "\<lparr>input = example_config\<lparr>msgRate := 0\<rparr>, clients = [Some (0::nat)], wg = 0,
        stop = \<lparr>capacity = 2, buffered = []\<rparr>, metrics = initMetrics,
        interval = - 9223372036854775808\<rparr>" envelope plain_enc six_ticks initMetrics]
  by simp

text \<open>
  Claim C2 as it is written fails: with a zero worker count or a zero rate
  \<^verbatim>\<open>computeTickerInterval\<close> returns a number, and \<^verbatim>\<open>KafkaProducer\<close> with rate 0
  returns a producer whose interval, on amd64, is the smallest \<^verbatim>\<open>int64\<close>.
\<close>

theorem zero_inputs_give_an_interval:
  "computeTickerInterval amd64_oor 1000 0 = 0
   \<and> computeTickerInterval amd64_oor 0 12 = - 9223372036854775808
   \<and> KafkaProducer amd64_oor all_open (example_config\<lparr>msgRate := 0\<rparr>) =
       Inr (\<lparr>input = example_config\<lparr>msgRate := 0\<rparr>, clients = [Some 0, Some 1, Some 2], wg = 0,
             stop = \<lparr>capacity = 2, buffered = []\<rparr>, metrics = initMetrics,
             interval = - 9223372036854775808\<rparr>,
            [NewClient (Inr 0), NewClient (Inr 1), NewClient (Inr 2),
             Println ''Connected to kafka client''])"
  by code_simp

text \<open>
  Claim C3, as the program has it. For a positive rate and a positive worker count whose
  exact interval \<open>workerCount * 10^9 / targetRate\<close> nanoseconds is at most \<open>2^62\<close>,
  \<^verbatim>\<open>computeTickerInterval\<close> returns that interval cut down to whole nanoseconds: it
  is not negative, exceeds the exact interval by at most the relative float64 error
  \<open>2^-50\<close>, and falls short of it by less than one nanosecond plus that error. When the
  result is positive, the workers together emit at least \<open>targetRate / (1 + 2^-50)\<close>
  messages per second; how far above the target they are is bounded only by the
  nanosecond cut off. When the exact interval, enlarged by that error, is below one
  nanosecond, the result is 0.
\<close>

theorem computeTickerInterval_truncates:
  fixes r :: "64 word" and w :: int
  assumes r: "0 < uint r" and w: "0 < w" "w < 2 ^ 63"
    and fits: "real_of_int w * 10 ^ 9 / real_of_int (uint r) \<le> 2 ^ 62"
  shows "0 \<le> computeTickerInterval oor r w
    \<and> real_of_int (computeTickerInterval oor r w)
          \<le> real_of_int w * 10 ^ 9 / real_of_int (uint r) * (1 + 1 / 2 ^ 50)
    \<and> real_of_int w * 10 ^ 9 / real_of_int (uint r) * (1 - 1 / 2 ^ 50) - 1
          < real_of_int (computeTickerInterval oor r w)
    \<and> (0 < computeTickerInterval oor r w \<longrightarrow>
          real_of_int (uint r) / (1 + 1 / 2 ^ 50)
            \<le> aggregate_rate w (computeTickerInterval oor r w))
    \<and> (real_of_int w * 10 ^ 9 / real_of_int (uint r) * (1 + 1 / 2 ^ 50) < 1 \<longrightarrow>
          computeTickerInterval oor r w = 0)"
proof -
  define R where "R = uint r"
  define X where "X = real_of_int w * 10 ^ 9 / real_of_int R"
  have R1: "0 < R" using r by (simp only: R_def)
  have R2: "R < 2 ^ 64" using uint_lt2p [of r] by (simp add: R_def)
  have rr: "0 < real_of_int R" and rw: "0 < real_of_int w" using R1 w by simp_all
  note fits = fits [folded R_def]
  have Xpos: "0 < X" unfolding X_def using rr rw by simp
  obtain M q where
    g: "f64_mul (f64_div (rne False 1 1 0) (f64_div (f64_of_int R) (f64_of_int w)))
          (rne False 1000000000 1 0) = F64 False M q"
    and M: "0 < M"
    and lo: "X * (1 - 1 / 2 ^ 50) \<le> real_of_int M * 2 powi q"
    and hi: "real_of_int M * 2 powi q \<le> X * (1 + 1 / 2 ^ 50)"
    unfolding X_def by (rule ticker_chain [OF R1 R2 w])
  define v where "v = real_of_int M * 2 powi q"
  define i where "i = \<lfloor>v\<rfloor>"
  have vpos: "0 \<le> v" unfolding v_def using M by simp
  have tr: "f64_trunc (F64 False M q) = Some i"
    unfolding i_def v_def using M by (intro f64_trunc_floor) simp
  have i0: "0 \<le> i" unfolding i_def using vpos by simp
  have iv: "real_of_int i \<le> v" "v < real_of_int i + 1" unfolding i_def by linarith+
  have "X * (1 + 1 / 2 ^ 50) \<le> 2 ^ 62 * (1 + 1 / 2 ^ 50)"
    using fits unfolding X_def by (intro mult_right_mono) simp_all
  also have "\<dots> < (2::real) ^ 63" by simp
  finally have "real_of_int i < 2 ^ 63" using iv(1) hi [folded v_def] by linarith
  then have "real_of_int i < real_of_int (2 ^ 63)" by simp
  then have i63: "i < 2 ^ 63" by (simp only: of_int_less_iff)
  have res: "computeTickerInterval oor r w = i"
    unfolding computeTickerInterval_def R_def [symmetric] g int64_of_f64_def tr
    using i0 i63 by simp
  have up: "real_of_int i \<le> X * (1 + 1 / 2 ^ 50)" using iv(1) hi [folded v_def] by linarith
  have dn: "X * (1 - 1 / 2 ^ 50) - 1 < real_of_int i" using iv(2) lo [folded v_def] by linarith
  have rate: "real_of_int R / (1 + 1 / 2 ^ 50) \<le> aggregate_rate w i" if "0 < i"
  proof -
    have ri: "0 < real_of_int i" using that by simp
    have e: "(0::real) < 1 + 1 / 2 ^ 50" by simp
    have "real_of_int R / (1 + 1 / 2 ^ 50) = real_of_int w * 10 ^ 9 / (X * (1 + 1 / 2 ^ 50))"
      unfolding X_def using rr rw by (simp add: field_simps)
    also have "\<dots> \<le> real_of_int w * 10 ^ 9 / real_of_int i"
      using up ri rw by (intro divide_left_mono mult_pos_pos) (simp_all add: Xpos)
    also have "\<dots> = aggregate_rate w i" by (simp add: aggregate_rate_def)
    finally show ?thesis .
  qed
  have zero: "i = 0" if "X * (1 + 1 / 2 ^ 50) < 1"
  proof -
    have "real_of_int i < 1" using that up by linarith
    then have "i < 1" by simp
    with i0 show ?thesis by simp
  qed
  show ?thesis
    unfolding res R_def [symmetric] X_def [symmetric] using i0 up dn rate zero
    by (intro conjI impI)
qed

text \<open>
  Rate 1000 with 12 workers: 12 ms per worker, 1000 messages per second together. Rate
  two thousand million with one worker: half a nanosecond, cut down to 0.
\<close>

theorem computeTickerInterval_truncates_witness:
  "0 < uint (1000 :: 64 word) \<and> (0::int) < 12 \<and> (12::int) < 2 ^ 63
   \<and> real_of_int 12 * 10 ^ 9 / real_of_int (uint (1000 :: 64 word)) \<le> 2 ^ 62
   \<and> computeTickerInterval amd64_oor 1000 12 = 12000000
   \<and> real_of_int (computeTickerInterval amd64_oor 1000 12)
        \<le> real_of_int 12 * 10 ^ 9 / real_of_int (uint (1000 :: 64 word)) * (1 + 1 / 2 ^ 50)
   \<and> real_of_int 12 * 10 ^ 9 / real_of_int (uint (1000 :: 64 word)) * (1 - 1 / 2 ^ 50) - 1
        < real_of_int (computeTickerInterval amd64_oor 1000 12)
   \<and> aggregate_rate 12 (computeTickerInterval amd64_oor 1000 12) = 1000
   \<and> 0 < uint (2000000000 :: 64 word) \<and> (0::int) < 1 \<and> (1::int) < 2 ^ 63
   \<and> real_of_int 1 * 10 ^ 9 / real_of_int (uint (2000000000 :: 64 word)) \<le> 2 ^ 62
   \<and> real_of_int 1 * 10 ^ 9 / real_of_int (uint (2000000000 :: 64 word)) * (1 + 1 / 2 ^ 50) < 1
   \<and> computeTickerInterval amd64_oor 2000000000 1 = 0"
proof -
  have v: "computeTickerInterval amd64_oor 1000 12 = 12000000" by code_simp
  have h: "0 < uint (1000 :: 64 word)" "(0::int) < 12" "(12::int) < 2 ^ 63"
    "real_of_int 12 * 10 ^ 9 / real_of_int (uint (1000 :: 64 word)) \<le> 2 ^ 62"
    by simp_all
  have g: "0 < uint (2000000000 :: 64 word)" "(0::int) < 1" "(1::int) < 2 ^ 63"
    "real_of_int 1 * 10 ^ 9 / real_of_int (uint (2000000000 :: 64 word)) \<le> 2 ^ 62"
    by simp_all
  have z: "real_of_int 1 * 10 ^ 9 / real_of_int (uint (2000000000 :: 64 word))
      * (1 + 1 / 2 ^ 50) < 1"
    by simp
  have a: "computeTickerInterval amd64_oor 2000000000 1 = 0"
    using computeTickerInterval_truncates [OF g, of amd64_oor] z by blast
  have b: "real_of_int (computeTickerInterval amd64_oor 1000 12)
        \<le> real_of_int 12 * 10 ^ 9 / real_of_int (uint (1000 :: 64 word)) * (1 + 1 / 2 ^ 50)
   \<and> real_of_int 12 * 10 ^ 9 / real_of_int (uint (1000 :: 64 word)) * (1 - 1 / 2 ^ 50) - 1
        < real_of_int (computeTickerInterval amd64_oor 1000 12)"
    using computeTickerInterval_truncates [OF h, of amd64_oor] by blast
  have c: "aggregate_rate 12 (computeTickerInterval amd64_oor 1000 12) = 1000"
    by (simp add: v aggregate_rate_def)
  note b1 = b [THEN conjunct1] and b2 = b [THEN conjunct2]
  show ?thesis
    using a b1 b2 c v h g z by (intro conjI)
qed

text \<open>
  Claim C3 as it is written fails for rates near or above one message per nanosecond and
  worker: at 700 million messages per second for one worker the interval is 1 ns, that
  is a thousand million messages per second, more than a quarter off the target; at two
  thousand million the interval is 0.
\<close>

theorem interval_truncated_to_whole_nanoseconds:
  "computeTickerInterval amd64_oor 700000000 1 = 1
   \<and> aggregate_rate 1 1 = 1000000000
   \<and> \<not> \<bar>aggregate_rate 1 (computeTickerInterval amd64_oor 700000000 1) - 700000000\<bar>
         \<le> 700000000 / 4
   \<and> computeTickerInterval amd64_oor 2000000000 1 = 0"
proof -
  have a: "computeTickerInterval amd64_oor 700000000 1 = 1" by code_simp
  have b: "computeTickerInterval amd64_oor 2000000000 1 = 0" by code_simp
  show ?thesis by (simp add: a b aggregate_rate_def)
qed

text \<open>
  Claim C4, as the program has it. For a worker count and an integer ratio from 1 to
  below \<open>2^53\<close> (the integers float64 holds exactly),
  \<^verbatim>\<open>computeClientAmount(float64(workerCount), float64(ratio))\<close> is exactly
  \<open>\<lceil>workerCount / ratio\<rceil>\<close>, and at least 1.
\<close>

theorem computeClientAmount_ceiling:
  assumes "1 \<le> n" "n < 2 ^ 53" "1 \<le> m" "m < 2 ^ 53"
  shows "computeClientAmount oor (f64_of_int n) (f64_of_int m) = \<lceil>real_of_int n / real_of_int m\<rceil>
       \<and> 1 \<le> computeClientAmount oor (f64_of_int n) (f64_of_int m)"
proof -
  have "0 < real_of_int n / real_of_int m" using assms by simp
  then have "1 \<le> \<lceil>real_of_int n / real_of_int m\<rceil>" by linarith
  then show ?thesis using clientAmount_ceiling [OF assms, of oor] by simp
qed

text \<open>
  12, 5 and 1 workers with the ratio 5 of the program: 3, 1 and 1 clients.
\<close>

theorem computeClientAmount_ceiling_witness:
  "computeClientAmount amd64_oor (f64_of_int 12) ProducerPerWorker = 3
   \<and> computeClientAmount amd64_oor (f64_of_int 5) ProducerPerWorker = 1
   \<and> computeClientAmount amd64_oor (f64_of_int 1) ProducerPerWorker = 1
   \<and> \<lceil>real_of_int 12 / real_of_int 5\<rceil> = 3"
proof -
  have h: "(1::int) \<le> 12" "(12::int) < 2 ^ 53" "(1::int) \<le> 5" "(5::int) < 2 ^ 53"
    "(1::int) \<le> 1" "(1::int) < 2 ^ 53"
    by simp_all
  have c: "\<lceil>real_of_int 12 / real_of_int 5\<rceil> = 3" "\<lceil>real_of_int 5 / real_of_int 5\<rceil> = 1"
    "\<lceil>real_of_int 1 / real_of_int 5\<rceil> = 1"
    by (simp_all add: ceiling_eq_iff)
  show ?thesis
    using computeClientAmount_ceiling [OF h(1,2,3,4), of amd64_oor]
      computeClientAmount_ceiling [OF h(3,4,3,4), of amd64_oor]
      computeClientAmount_ceiling [OF h(5,6,3,4), of amd64_oor]
    unfolding ProducerPerWorker_five c by simp
qed

text \<open>
  Claim C4 as it is written fails for a worker count float64 does not hold:
  \<open>5 * 2^53 + 1\<close> workers become \<open>5 * 2^53\<close> in \<^verbatim>\<open>float64(...)\<close>, and the result
  is one client short of the ceiling.
\<close>

theorem float64_loses_large_worker_counts:
  "computeClientAmount amd64_oor (f64_of_int 45035996273704961) ProducerPerWorker
     = 9007199254740992
   \<and> \<lceil>real_of_int 45035996273704961 / real_of_int 5\<rceil> = 9007199254740993"
proof -
  have "computeClientAmount amd64_oor (f64_of_int 45035996273704961) ProducerPerWorker
     = 9007199254740992" by code_simp
  moreover have "\<lceil>real_of_int 45035996273704961 / real_of_int 5\<rceil> = 9007199254740993"
    by (simp add: ceiling_eq_iff)
  ultimately show ?thesis by simp
qed

section \<open>Properties of the pool\<close>

lemma createClients_loop_fails:
  assumes j: "j < nat amount" and e: "newClient j = Inl e"
    and ok: "\<forall>t<j. newClient t = Inr (c t)"
  shows "i + k = j \<Longrightarrow>
    createClients_loop newClient amount (int i)
      (map (\<lambda>t. Some (c t)) [0..<i] @ replicate (nat amount - i) None) calls =
    ((map (\<lambda>t. Some (c t)) [0..<j] @ replicate (nat amount - j) None, Some e),
     calls @ map (\<lambda>t. NewClient (Inr (c t))) [i..<j] @ [NewClient (Inl e)])"
proof (induction k arbitrary: i calls)
  case 0
  then have "i = j" by simp
  then show ?case
    using j e by (subst createClients_loop.simps) simp
next
  case (Suc k)
  then have ij: "i < j" and step: "Suc i + k = j" by simp_all
  have nc: "newClient i = Inr (c i)" using ok ij by simp
  have ia: "i < nat amount" using ij j by simp
  have ia': "int i < amount" using ia by linarith
  have upd: "(map (\<lambda>t. Some (c t)) [0..<i] @ replicate (nat amount - i) None)[i := Some (c i)]
      = map (\<lambda>t. Some (c t)) [0..<Suc i] @ replicate (nat amount - Suc i) None"
  proof -
    have "replicate (nat amount - i) (None :: 'a option) = None # replicate (nat amount - Suc i) None"
      using ia by (metis Suc_diff_Suc replicate_Suc)
    then show ?thesis by (simp add: list_update_append)
  qed
  have "createClients_loop newClient amount (int i)
      (map (\<lambda>t. Some (c t)) [0..<i] @ replicate (nat amount - i) None) calls =
    createClients_loop newClient amount (int (Suc i))
      (map (\<lambda>t. Some (c t)) [0..<Suc i] @ replicate (nat amount - Suc i) None)
      (calls @ [NewClient (Inr (c i))])"
    using ia' nc upd by (subst createClients_loop.simps) (simp add: add.commute)
  also have "\<dots> = ((map (\<lambda>t. Some (c t)) [0..<j] @ replicate (nat amount - j) None, Some e),
     (calls @ [NewClient (Inr (c i))]) @ map (\<lambda>t. NewClient (Inr (c t))) [Suc i..<j] @ [NewClient (Inl e)])"
    by (rule Suc.IH [OF step])
  finally show ?case using ij by (simp add: upt_conv_Cons)
qed

lemma createClients_loop_succeeds:
  assumes ok: "\<forall>t<nat amount. newClient t = Inr (c t)"
  shows "i + k = nat amount \<Longrightarrow>
    createClients_loop newClient amount (int i)
      (map (\<lambda>t. Some (c t)) [0..<i] @ replicate (nat amount - i) None) calls =
    ((map (\<lambda>t. Some (c t)) [0..<nat amount], None),
     calls @ map (\<lambda>t. NewClient (Inr (c t))) [i..<nat amount])"
proof (induction k arbitrary: i calls)
  case 0
  then have "i = nat amount" by simp
  then show ?case
    by (subst createClients_loop.simps) simp
next
  case (Suc k)
  then have ia: "i < nat amount" and step: "Suc i + k = nat amount" by simp_all
  have nc: "newClient i = Inr (c i)" using ok ia by simp
  have ia': "int i < amount" using ia by linarith
  have upd: "(map (\<lambda>t. Some (c t)) [0..<i] @ replicate (nat amount - i) None)[i := Some (c i)]
      = map (\<lambda>t. Some (c t)) [0..<Suc i] @ replicate (nat amount - Suc i) None"
  proof -
    have "replicate (nat amount - i) (None :: 'a option) = None # replicate (nat amount - Suc i) None"
      using ia by (metis Suc_diff_Suc replicate_Suc)
    then show ?thesis by (simp add: list_update_append)
  qed
  have "createClients_loop newClient amount (int i)
      (map (\<lambda>t. Some (c t)) [0..<i] @ replicate (nat amount - i) None) calls =
    createClients_loop newClient amount (int (Suc i))
      (map (\<lambda>t. Some (c t)) [0..<Suc i] @ replicate (nat amount - Suc i) None)
      (calls @ [NewClient (Inr (c i))])"
    using ia' nc upd by (subst createClients_loop.simps) (simp add: add.commute)
  also have "\<dots> = ((map (\<lambda>t. Some (c t)) [0..<nat amount], None),
     (calls @ [NewClient (Inr (c i))]) @ map (\<lambda>t. NewClient (Inr (c t))) [Suc i..<nat amount])"
    by (rule Suc.IH [OF step])
  finally show ?case using ia by (simp add: upt_conv_Cons)
qed

lemma createClients_fails:
  assumes "j < nat amount" "newClient j = Inl e" "\<forall>t<j. newClient t = Inr (c t)"
  shows "createClients newClient amount =
    Inr ((map (\<lambda>t. Some (c t)) [0..<j] @ replicate (nat amount - j) None, Some e),
         map (\<lambda>t. NewClient (Inr (c t))) [0..<j] @ [NewClient (Inl e)])"
  using createClients_loop_fails [OF assms, of 0 j "[]"] assms(1)
  by (simp add: createClients_def)

lemma createClients_succeeds:
  assumes "0 \<le> amount" "\<forall>t<nat amount. newClient t = Inr (c t)"
  shows "createClients newClient amount =
    Inr ((map (\<lambda>t. Some (c t)) [0..<nat amount], None),
         map (\<lambda>t. NewClient (Inr (c t))) [0..<nat amount])"
  using createClients_loop_succeeds [OF assms(2), of 0 "nat amount" "[]"] assms(1)
  by (simp add: createClients_def)

lemma createClients_loop_length:
  "length (fst (fst (createClients_loop newClient amount i cs calls))) = length cs"
proof (induction newClient amount i cs calls rule: createClients_loop.induct)
  case (1 newClient amount i cs calls)
  show ?case
  proof (cases "i < amount")
    case False
    then show ?thesis by (subst createClients_loop.simps) auto
  next
    case True
    show ?thesis
    proof (cases "newClient (nat i)")
      case (Inl err)
      then show ?thesis using True by (subst createClients_loop.simps) simp
    next
      case (Inr client)
      then show ?thesis
        using True "1.IH" [OF True Inr] by (subst createClients_loop.simps) simp
    qed
  qed
qed

lemma createClients_length:
  "createClients newClient amount = Inr ((cs, err), calls) \<Longrightarrow> length cs = nat amount"
  using createClients_loop_length [of newClient amount 0 "replicate (nat amount) None" "[]"]
  by (auto simp: createClients_def split: if_splits)

lemma KafkaProducer_fields:
  assumes "KafkaProducer oor newClient cfg = Inr (k, calls)"
  shows "input k = cfg" and "wg k = 0"
    and "stop k = \<lparr>capacity = nat (creators (Workers cfg)), buffered = []\<rparr>"
    and "0 \<le> creators (Workers cfg)"
    and "metrics k = initMetrics"
    and "interval k = computeTickerInterval oor (msgRate cfg) (producers (Workers cfg))"
    and "length (clients k) =
           nat (computeClientAmount oor (f64_of_int (producers (Workers cfg))) ProducerPerWorker)"
  using assms createClients_length [of newClient
      "computeClientAmount oor (f64_of_int (producers (Workers cfg))) ProducerPerWorker"]
  by (auto simp: KafkaProducer_def make_chan_def Let_def split: sum.splits prod.splits if_splits)

lemma go_quot_nonneg: "0 \<le> a \<Longrightarrow> 0 < b \<Longrightarrow> go_quot a b = a div b"
  by (cases "a = 0") (simp_all add: go_quot_def sgn_if)

lemma StartProducers_loop_result:
  "StartProducers_loop cs count i started = Inr res \<Longrightarrow> 0 \<le> i \<Longrightarrow>
     res = started @ map (\<lambda>t. cs ! (t div 5)) [nat i..<nat count]"
proof (induction cs count i started rule: StartProducers_loop.induct)
  case (1 cs count i started)
  show ?case
  proof (cases "i < count")
    case False
    then have "res = started"
      using "1.prems"(1) by (subst (asm) StartProducers_loop.simps) auto
    moreover have "[nat i..<nat count] = []" using False "1.prems"(2) by simp
    ultimately show ?thesis by simp
  next
    case True
    have i0: "0 \<le> i" by (rule "1.prems"(2))
    have q: "go_quot i 5 = i div 5" using i0 by (simp add: go_quot_nonneg)
    have r: "0 \<le> i div 5 \<and> i div 5 < int (length cs)"
      using "1.prems"(1) True q
      by (subst (asm) StartProducers_loop.simps) (auto simp: Let_def split: if_splits)
    then have rec: "StartProducers_loop cs count (i + 1) (started @ [cs ! nat (i div 5)]) = Inr res"
      using "1.prems"(1) True q
      by (subst (asm) StartProducers_loop.simps) (auto simp: Let_def split: if_splits)
    have "res = (started @ [cs ! nat (go_quot i 5)]) @ map (\<lambda>t. cs ! (t div 5)) [nat (i + 1)..<nat count]"
      using "1.IH" [OF True refl _ _ ] r rec True q i0 by simp
    moreover have "[nat i..<nat count] = nat i # [nat (i + 1)..<nat count]"
      using True i0 by (simp add: upt_conv_Cons nat_add_distrib)
    moreover have "nat (i div 5) = nat i div 5"
      using i0 by (simp add: nat_div_distrib)
    ultimately show ?thesis using q by simp
  qed
qed

lemma StartProducers_loop_ok:
  assumes "\<forall>t<nat count. t div 5 < length cs"
  shows "i + k = nat count \<Longrightarrow>
     StartProducers_loop cs count (int i) started =
       Inr (started @ map (\<lambda>t. cs ! (t div 5)) [i..<nat count])"
proof (induction k arbitrary: i started)
  case 0
  then have "\<not> int i < count" by auto
  then have "StartProducers_loop cs count (int i) started = Inr started"
    by (subst StartProducers_loop.simps) auto
  then show ?case using 0 by simp
next
  case (Suc k)
  then have ic: "i < nat count" and step: "Suc i + k = nat count" by simp_all
  have ic': "int i < count" using ic by linarith
  have q: "go_quot (int i) 5 = int i div 5" by (simp add: go_quot_nonneg)
  have "i div 5 < length cs" using assms ic by simp
  moreover have id: "int i div 5 = int (i div 5)" by (simp add: zdiv_int)
  ultimately have r: "0 \<le> int i div 5 \<and> int i div 5 < int (length cs)"
    by simp
  have n: "nat (int i div 5) = i div 5" by (simp only: id nat_int)
  have "StartProducers_loop cs count (int i) started =
        StartProducers_loop cs count (int (Suc i)) (started @ [cs ! (i div 5)])"
    using ic' r q n by (subst StartProducers_loop.simps) (simp add: Let_def add.commute)
  also have "\<dots> = Inr ((started @ [cs ! (i div 5)]) @ map (\<lambda>t. cs ! (t div 5)) [Suc i..<nat count])"
    by (rule Suc.IH [OF step])
  finally show ?case using ic by (simp add: upt_conv_Cons)
qed

lemma clientAmount_zero: "computeClientAmount oor (f64_of_int 0) ProducerPerWorker = 0"
  by code_simp

lemma clients_cover_workers:
  assumes "0 \<le> p" "p < 2 ^ 53" "t < nat p"
  shows "t div 5 < nat (computeClientAmount oor (f64_of_int p) ProducerPerWorker)"
proof -
  have p1: "1 \<le> p" using assms by linarith
  have ca: "computeClientAmount oor (f64_of_int p) ProducerPerWorker = \<lceil>real_of_int p / real_of_int 5\<rceil>"
    unfolding ProducerPerWorker_five using p1 assms(2) by (intro clientAmount_ceiling) simp_all
  have "5 * (t div 5) \<le> t" by simp
  then have "real (5 * (t div 5)) \<le> real t" by (simp only: of_nat_le_iff)
  then have "real (t div 5) \<le> real t / 5" by simp
  also have "\<dots> < real_of_int p / 5" using assms(3) by simp
  also have "\<dots> \<le> real_of_int \<lceil>real_of_int p / 5\<rceil>" by linarith
  finally have "int (t div 5) < \<lceil>real_of_int p / 5\<rceil>" by linarith
  then show ?thesis unfolding ca by simp
qed

text \<open>
  Claim C9, as the program has it. When the call number \<open>j\<close> of
  \<^verbatim>\<open>sarama.NewClient\<close> is the first to fail, \<^verbatim>\<open>createClients\<close> makes no further
  call and returns the error together with the slice as filled so far: the clients
  opened before, then nil. \<^verbatim>\<open>KafkaProducer\<close> prints the error and returns a
  producer holding that slice; it has no error to return. The calls made are the
  \<open>j + 1\<close> calls of \<^verbatim>\<open>NewClient\<close> and the prints: no client is closed.
\<close>

theorem failed_open_keeps_partial_pool:
  assumes amount: "computeClientAmount oor (f64_of_int (producers (Workers cfg))) ProducerPerWorker = amount"
    and j: "j < nat amount" and e: "newClient j = Inl e"
    and ok: "\<forall>t<j. newClient t = Inr (c t)"
    and cr: "0 \<le> creators (Workers cfg)"
  shows "createClients newClient amount =
           Inr ((map (\<lambda>t. Some (c t)) [0..<j] @ replicate (nat amount - j) None, Some e),
                map (\<lambda>t. NewClient (Inr (c t))) [0..<j] @ [NewClient (Inl e)])
       \<and> KafkaProducer oor newClient cfg =
           Inr (\<lparr>input = cfg,
                 clients = map (\<lambda>t. Some (c t)) [0..<j] @ replicate (nat amount - j) None,
                 wg = 0,
                 stop = \<lparr>capacity = nat (creators (Workers cfg)), buffered = []\<rparr>,
                 metrics = initMetrics,
                 interval = computeTickerInterval oor (msgRate cfg) (producers (Workers cfg))\<rparr>,
                map (\<lambda>t. NewClient (Inr (c t))) [0..<j] @
                  [NewClient (Inl e), Println ''New Client Error'', Println e,
                   Println ''Connected to kafka client''])"
proof -
  have cc: "createClients newClient amount =
           Inr ((map (\<lambda>t. Some (c t)) [0..<j] @ replicate (nat amount - j) None, Some e),
                map (\<lambda>t. NewClient (Inr (c t))) [0..<j] @ [NewClient (Inl e)])"
    by (rule createClients_fails [OF j e ok])
  then show ?thesis
    using cr unfolding KafkaProducer_def amount Let_def
    by (simp add: make_chan_def)
qed

text \<open>
  12 producers need 3 clients; the second connection is refused.
\<close>

theorem failed_open_keeps_partial_pool_witness:
  "computeClientAmount amd64_oor (f64_of_int (producers (Workers example_config)))
       ProducerPerWorker = 3
   \<and> (1::nat) < nat 3 \<and> second_fails 1 = Inl ''out of brokers''
   \<and> 0 \<le> creators (Workers example_config)
   \<and> createClients second_fails 3 =
        Inr (([Some 0, None, None], Some ''out of brokers''),
             [NewClient (Inr 0), NewClient (Inl ''out of brokers'')])
   \<and> KafkaProducer amd64_oor second_fails example_config =
        Inr (\<lparr>input = example_config, clients = [Some 0, None, None], wg = 0,
              stop = \<lparr>capacity = 2, buffered = []\<rparr>, metrics = initMetrics,
              interval = 12000000\<rparr>,
             [NewClient (Inr 0), NewClient (Inl ''out of brokers''),
              Println ''New Client Error'', Println ''out of brokers'',
              Println ''Connected to kafka client''])"
proof -
  have a: "computeClientAmount amd64_oor (f64_of_int (producers (Workers example_config)))
       ProducerPerWorker = 3"
    by code_simp
  have i: "computeTickerInterval amd64_oor (msgRate example_config)
             (producers (Workers example_config)) = 12000000"
    by code_simp
  have j: "(1::nat) < nat 3" by simp
  have e: "second_fails 1 = Inl ''out of brokers''" by (simp add: second_fails_def)
  have ok: "\<forall>t<1. second_fails t = Inr t" by (simp add: second_fails_def)
  have cr: "0 \<le> creators (Workers example_config)" by (simp add: example_config_def)
  have n: "nat 3 - 1 = Suc (Suc 0)" by simp
  have r: "replicate (Suc (Suc 0)) (None :: nat option) = [None, None]" by simp
  have u: "[0..<1] = [0::nat]" by simp
  note t = failed_open_keeps_partial_pool [OF a j e ok cr, unfolded i n r u]
  have c2: "nat (creators (Workers example_config)) = 2" by (simp add: example_config_def)
  show ?thesis
    using t [unfolded c2] j e cr by (simp add: a)
qed

text \<open>
  Claim C9 as it is written fails: with the second connection refused,
  \<^verbatim>\<open>KafkaProducer\<close> returns a producer whose clients are the first client and two
  nils, and the calls made contain no \<^verbatim>\<open>ClientClose\<close> of that first client.
\<close>

theorem failed_open_returns_a_producer:
  "KafkaProducer amd64_oor second_fails example_config =
     Inr (\<lparr>input = example_config, clients = [Some 0, None, None], wg = 0,
           stop = \<lparr>capacity = 2, buffered = []\<rparr>, metrics = initMetrics,
           interval = 12000000\<rparr>,
          [NewClient (Inr 0), NewClient (Inl ''out of brokers''),
           Println ''New Client Error'', Println ''out of brokers'',
           Println ''Connected to kafka client''])"
  by code_simp

text \<open>
  The capacity of the stop channel is the number of creators, whatever the number of
  producers.
\<close>

lemma KafkaProducer_stop_capacity:
  "KafkaProducer oor newClient cfg = Inr (k, calls) \<Longrightarrow>
     capacity (stop k) = nat (creators (Workers cfg)) \<and> buffered (stop k) = []"
  using KafkaProducer_fields(3) [of oor newClient cfg k calls] by simp

text \<open>
  Claim C8 on a configuration with 12 producers and 2 creators: the stop channel of the
  producer \<^verbatim>\<open>KafkaProducer\<close> returns has capacity 2, and of the 12 sends of
  \<^verbatim>\<open>StopProducers\<close> the third blocks while no worker receives.
\<close>

theorem stop_channel_sized_by_creators:
  "KafkaProducer amd64_oor all_open example_config =
     Inr (\<lparr>input = example_config, clients = [Some 0, Some 1, Some 2], wg = 0,
           stop = \<lparr>capacity = 2, buffered = []\<rparr>, metrics = initMetrics,
           interval = 12000000\<rparr>,
          [NewClient (Inr 0), NewClient (Inr 1), NewClient (Inr 2),
           Println ''Connected to kafka client''])
   \<and> producers (Workers example_config) = 12
   \<and> creators (Workers example_config) = 2
   \<and> StopProducers_broadcast 12 1 \<lparr>capacity = 2, buffered = []\<rparr> =
        (\<lparr>capacity = 2, buffered = [True, True]\<rparr>, Some 3)"
  by code_simp

lemma StartProducers_result:
  assumes "StartProducers k = Inr (k', started)"
  shows "started = map (\<lambda>i. clients k ! (i div 5)) [0..<nat (producers (Workers (input k)))]"
    and "k' = k\<lparr>wg := wg k + producers (Workers (input k))\<rparr>"
proof -
  have l: "StartProducers_loop (clients k) (producers (Workers (input k))) 0 [] = Inr started"
    and k': "k' = k\<lparr>wg := wg k + producers (Workers (input k))\<rparr>"
    using assms by (auto simp: StartProducers_def Let_def split: if_splits sum.splits)
  show "started = map (\<lambda>i. clients k ! (i div 5)) [0..<nat (producers (Workers (input k)))]"
    using StartProducers_loop_result [OF l] by simp
  show "k' = k\<lparr>wg := wg k + producers (Workers (input k))\<rparr>" by (rule k')
qed

text \<open>
  Claim C5. \<^verbatim>\<open>StartProducers\<close> starts worker \<open>i\<close>, for every \<open>i\<close> from 0 to
  \<open>producers - 1\<close>, with the client at index \<open>i div 5\<close> of \<^verbatim>\<open>k.clients\<close>: workers
  0 to 4 with client 0, 5 to 9 with client 1, and so on. On the producer
  \<^verbatim>\<open>KafkaProducer\<close> returns, with a worker count from 0 to below \<open>2^53\<close>, every such
  index is within the slice and \<^verbatim>\<open>StartProducers\<close> returns; and whenever
  \<^verbatim>\<open>StartProducers\<close> returns, on any producer, the clients it handed out are these.
\<close>

theorem StartProducers_assignment:
  "(KafkaProducer oor newClient cfg = Inr (k, calls)
      \<and> 0 \<le> producers (Workers cfg) \<and> producers (Workers cfg) < 2 ^ 53 \<longrightarrow>
    StartProducers k =
      Inr (k\<lparr>wg := producers (Workers cfg)\<rparr>,
           map (\<lambda>i. clients k ! (i div 5)) [0..<nat (producers (Workers cfg))]))
   \<and> (StartProducers k2 = Inr (k2', started) \<longrightarrow>
        length started = nat (producers (Workers (input k2)))
        \<and> (\<forall>i<length started. started ! i = clients k2 ! (i div 5)))"
proof (intro conjI impI)
  assume a: "KafkaProducer oor newClient cfg = Inr (k, calls)
      \<and> 0 \<le> producers (Workers cfg) \<and> producers (Workers cfg) < 2 ^ 53"
  define p where "p = producers (Workers cfg)"
  note f = KafkaProducer_fields [OF a [THEN conjunct1]]
  have p: "0 \<le> p" "p < 2 ^ 53" using a by (simp_all add: p_def)
  have cover: "\<forall>t<nat p. t div 5 < length (clients k)"
    using clients_cover_workers [OF p, of _ oor] unfolding f(7) p_def by simp
  have "StartProducers_loop (clients k) p (int 0) [] =
      Inr ([] @ map (\<lambda>t. clients k ! (t div 5)) [0..<nat p])"
    by (rule StartProducers_loop_ok [OF cover]) simp
  then show "StartProducers k =
      Inr (k\<lparr>wg := producers (Workers cfg)\<rparr>,
           map (\<lambda>i. clients k ! (i div 5)) [0..<nat (producers (Workers cfg))])"
    using p unfolding p_def by (simp add: StartProducers_def f(1,2) Let_def)
next
  assume s: "StartProducers k2 = Inr (k2', started)"
  note r = StartProducers_result(1) [OF s]
  show "length started = nat (producers (Workers (input k2)))"
    by (simp add: r)
  show "\<forall>i<length started. started ! i = clients k2 ! (i div 5)"
    by (simp add: r)
qed

text \<open>
  12 producers on 3 clients: five workers on client 0, five on client 1, two on client 2.
\<close>

theorem StartProducers_assignment_witness:
  "KafkaProducer amd64_oor all_open example_config =
     Inr (\<lparr>input = example_config, clients = [Some 0, Some 1, Some 2], wg = 0,
           stop = \<lparr>capacity = 2, buffered = []\<rparr>, metrics = initMetrics,
           interval = 12000000\<rparr>,
          [NewClient (Inr 0), NewClient (Inr 1), NewClient (Inr 2),
           Println ''Connected to kafka client''])
   \<and> 0 \<le> producers (Workers example_config) \<and> producers (Workers example_config) < 2 ^ 53
   \<and> StartProducers
        \<lparr>input = example_config, clients = [Some (0::nat), Some 1, Some 2], wg = 0,
         stop = \<lparr>capacity = 2, buffered = []\<rparr>, metrics = initMetrics, interval = 12000000\<rparr> =
       Inr (\<lparr>input = example_config, clients = [Some 0, Some 1, Some 2], wg = 12,
             stop = \<lparr>capacity = 2, buffered = []\<rparr>, metrics = initMetrics,
             interval = 12000000\<rparr>,
            [Some 0, Some 0, Some 0, Some 0, Some 0, Some 1, Some 1, Some 1, Some 1, Some 1,
             Some 2, Some 2])"
proof -
  define k0 :: "nat kafkaProducer" where
    "k0 = \<lparr>input = example_config, clients = [Some 0, Some 1, Some 2], wg = 0,
           stop = \<lparr>capacity = 2, buffered = []\<rparr>, metrics = initMetrics,
           interval = 12000000\<rparr>"
  have kp: "KafkaProducer amd64_oor all_open example_config =
     Inr (k0, [NewClient (Inr 0), NewClient (Inr 1), NewClient (Inr 2),
           Println ''Connected to kafka client''])"
    unfolding k0_def by code_simp
  have p: "0 \<le> producers (Workers example_config)" "producers (Workers example_config) < 2 ^ 53"
    by (simp_all add: example_config_def)
  have m: "map (\<lambda>i. clients k0 ! (i div 5)) [0..<nat (producers (Workers example_config))] =
      [Some 0, Some 0, Some 0, Some 0, Some 0, Some 1, Some 1, Some 1, Some 1, Some 1,
       Some 2, Some 2]"
    unfolding k0_def by code_simp
  have w: "k0\<lparr>wg := producers (Workers example_config)\<rparr> =
      \<lparr>input = example_config, clients = [Some 0, Some 1, Some 2], wg = 12,
             stop = \<lparr>capacity = 2, buffered = []\<rparr>, metrics = initMetrics,
             interval = 12000000\<rparr>"
    unfolding k0_def by (simp add: example_config_def)
  have "StartProducers k0 =
      Inr (k0\<lparr>wg := producers (Workers example_config)\<rparr>,
           map (\<lambda>i. clients k0 ! (i div 5)) [0..<nat (producers (Workers example_config))])"
    using StartProducers_assignment [where oor = amd64_oor and newClient = all_open
        and cfg = example_config and k = k0
        and calls = "[NewClient (Inr 0), NewClient (Inr 1), NewClient (Inr 2),
           Println ''Connected to kafka client'']"
        and ?k2.0 = k0 and k2' = k0 and started = "[]"] kp p
    by blast
  then show ?thesis
    using kp p unfolding m w unfolding k0_def by simp
qed

end
